theory Spec2Isabelle
  imports Complex_Main "HOL-Library.Char_ord"
begin

section \<open>Python exceptions and numpy arrays\<close>

text \<open>
  The notebooks are Python over numpy. Every exception the modelled code can raise is a
  value of \<open>error\<close>; a computation that may raise returns \<open>error + 'a\<close> with \<open>Inl\<close> for
  the exception.
\<close>

datatype error =
    ZeroDivisionError
  | ValueError
  | IndexError
  | KeyError
  | TypeError
  | UnboundLocalError
  | RuntimeError

text \<open>
  A two-dimensional numpy array: its shape and its rows. \<open>wf2\<close> says that the rows agree
  with the shape, which every array built by numpy satisfies.
\<close>

record 'a ndarray2 =
  shape0 :: nat
  shape1 :: nat
  rows :: "'a list list"

definition wf2 :: "'a ndarray2 \<Rightarrow> bool" where
  "wf2 A = (length (rows A) = shape0 A \<and> list_all (\<lambda>r. length r = shape1 A) (rows A))"

text \<open>\<^verbatim>\<open>a.reshape((n, -1))\<close> of a one-dimensional array: numpy refuses when the known
  dimensions multiply to zero or do not divide the size; an empty array reshapes to
  \<open>(n, 0)\<close>.\<close>

definition reshape_rows :: "'a list \<Rightarrow> nat \<Rightarrow> error + 'a ndarray2" where
  "reshape_rows a n =
     (if n = 0 \<or> length a mod n \<noteq> 0 then Inl ValueError
      else let c = length a div n
           in Inr \<lparr>shape0 = n, shape1 = c,
                   rows = map (\<lambda>i. take c (drop (i * c) a)) [0..<n]\<rparr>)"

text \<open>\<^verbatim>\<open>A[:, lo:hi]\<close> for \<open>0 \<le> lo \<le> hi\<close>: slices clip at the row length.\<close>

definition slice_cols :: "'a ndarray2 \<Rightarrow> nat \<Rightarrow> nat \<Rightarrow> 'a ndarray2" where
  "slice_cols A lo hi =
     \<lparr>shape0 = shape0 A,
      shape1 = min hi (shape1 A) - min lo (shape1 A),
      rows = map (\<lambda>r. take (hi - lo) (drop lo r)) (rows A)\<rparr>"

text \<open>\<^verbatim>\<open>A[:, j]\<close> for \<open>j \<ge> 0\<close>: an integer index beyond the row length raises IndexError.\<close>

definition get_col :: "'a ndarray2 \<Rightarrow> nat \<Rightarrow> error + 'a list" where
  "get_col A j =
     (if j < shape1 A then Inr (map (\<lambda>r. r ! j) (rows A)) else Inl IndexError)"

text \<open>\<^verbatim>\<open>np.zeros_like(x)\<close>.\<close>

definition zeros_like :: "int ndarray2 \<Rightarrow> int ndarray2" where
  "zeros_like x =
     \<lparr>shape0 = shape0 x, shape1 = shape1 x,
      rows = replicate (shape0 x) (replicate (shape1 x) 0)\<rparr>"

text \<open>\<^verbatim>\<open>y[:, :-1] = v\<close>: the target is every column of \<open>y\<close> but the last. The model covers
  a value of exactly the target's shape and reports any other shape as ValueError
  (numpy would also broadcast an axis of length one; \<open>get_batches\<close> never passes one
  that differs from the target, see \<open>make_targets\<close>).\<close>

definition set_cols_but_last :: "'a ndarray2 \<Rightarrow> 'a ndarray2 \<Rightarrow> error + 'a ndarray2" where
  "set_cols_but_last y v =
     (if shape0 v = shape0 y \<and> shape1 v = shape1 y - 1
      then Inr (y\<lparr>rows := map2 (\<lambda>yr vr. vr @ drop (length vr) yr) (rows y) (rows v)\<rparr>)
      else Inl ValueError)"

text \<open>\<^verbatim>\<open>y[:, -1] = c\<close>: index \<open>-1\<close> on an axis of length zero raises IndexError.\<close>

definition set_last_col :: "'a ndarray2 \<Rightarrow> 'a list \<Rightarrow> error + 'a ndarray2" where
  "set_last_col y c =
     (if shape1 y = 0 then Inl IndexError
      else if length c \<noteq> shape0 y then Inl ValueError
      else Inr (y\<lparr>rows := map2 (\<lambda>yr v. yr[shape1 y - 1 := v]) (rows y) c\<rparr>))"

section \<open>The batcher: \<open>get_batches\<close> (torch notebook)\<close>

text \<open>
  \<^verbatim>\<open>y[:, :-1], y[:, -1] = v, c\<close>: both right-hand sides are already evaluated; the two
  assignments run left to right.
\<close>

definition assign_targets :: "int ndarray2 \<Rightarrow> int ndarray2 \<Rightarrow> int list \<Rightarrow> error + int ndarray2" where
  "assign_targets y v c =
     (case set_cols_but_last y v of
        Inl e \<Rightarrow> Inl e
      | Inr y1 \<Rightarrow> set_last_col y1 c)"

text \<open>
  The \<^verbatim>\<open>try\<close> block of the loop body. The right-hand tuple
  \<^verbatim>\<open>x[:, 1:], arr[:, n+n_steps]\<close> is evaluated before anything is assigned, so an
  IndexError of \<^verbatim>\<open>arr[:, n+n_steps]\<close> leaves \<open>y\<close> all zero.
\<close>

definition try_targets :: "int ndarray2 \<Rightarrow> int ndarray2 \<Rightarrow> nat \<Rightarrow> nat \<Rightarrow> error + int ndarray2" where
  "try_targets arr x n n_steps =
     (case get_col arr (n + n_steps) of
        Inl e \<Rightarrow> Inl e
      | Inr c \<Rightarrow> assign_targets (zeros_like x) (slice_cols x 1 (shape1 x)) c)"

text \<open>The \<^verbatim>\<open>except IndexError\<close> handler: the same assignment from \<^verbatim>\<open>arr[:, 0]\<close>.\<close>

definition except_targets :: "int ndarray2 \<Rightarrow> int ndarray2 \<Rightarrow> error + int ndarray2" where
  "except_targets arr x =
     (case get_col arr 0 of
        Inl e \<Rightarrow> Inl e
      | Inr c \<Rightarrow> assign_targets (zeros_like x) (slice_cols x 1 (shape1 x)) c)"

text \<open>
  \<^verbatim>\<open>y = np.zeros_like(x)\<close> followed by the \<^verbatim>\<open>try\<close> / \<^verbatim>\<open>except IndexError\<close>:
  only an IndexError of the \<^verbatim>\<open>try\<close> block enters the handler; any other exception,
  and any exception of the handler, propagates.
\<close>

definition make_targets :: "int ndarray2 \<Rightarrow> int ndarray2 \<Rightarrow> nat \<Rightarrow> nat \<Rightarrow> error + int ndarray2" where
  "make_targets arr x n n_steps =
     (case try_targets arr x n n_steps of
        Inl IndexError \<Rightarrow> except_targets arr x
      | Inl e \<Rightarrow> Inl e
      | Inr y \<Rightarrow> Inr y)"

text \<open>
  \<^verbatim>\<open>for n in range(0, arr.shape[1], n_steps): ... yield x, y\<close>, from offset \<open>n\<close> on. The
  result is the list of all batches the generator yields, or the exception that ends it.
\<close>

function batches_loop ::
  "int ndarray2 \<Rightarrow> nat \<Rightarrow> nat \<Rightarrow> error + (int ndarray2 \<times> int ndarray2) list" where
  "batches_loop arr n_steps n =
     (if n_steps = 0 then Inl ValueError
      else if shape1 arr \<le> n then Inr []
      else (case make_targets arr (slice_cols arr n (n + n_steps)) n n_steps of
              Inl e \<Rightarrow> Inl e
            | Inr y \<Rightarrow>
               (case batches_loop arr n_steps (n + n_steps) of
                  Inl e \<Rightarrow> Inl e
                | Inr bs \<Rightarrow> Inr ((slice_cols arr n (n + n_steps), y) # bs))))"
  by pat_completeness auto
termination
  by (relation "measure (\<lambda>(arr, n_steps, n). shape1 arr - n)") auto

declare batches_loop.simps [simp del]

text \<open>
  \<open>get_batches(arr, n_seqs, n_steps)\<close> for non-negative \<open>n_seqs\<close>, \<open>n_steps\<close>;
  \<^verbatim>\<open>len(arr)//batch_size\<close> raises ZeroDivisionError when the batch size is zero.
\<close>

definition get_batches ::
  "int list \<Rightarrow> nat \<Rightarrow> nat \<Rightarrow> error + (int ndarray2 \<times> int ndarray2) list" where
  "get_batches arr n_seqs n_steps =
     (let batch_size = n_seqs * n_steps
      in if batch_size = 0 then Inl ZeroDivisionError
         else let n_batches = length arr div batch_size;
                  arr1 = take (n_batches * batch_size) arr
              in case reshape_rows arr1 n_seqs of
                   Inl e \<Rightarrow> Inl e
                 | Inr arr2 \<Rightarrow> batches_loop arr2 n_steps 0)"


subsection \<open>Closed forms used in the statements about \<open>get_batches\<close>\<close>

text \<open>One row of a target array: the row from column \<open>n + 1\<close> on, \<open>s - 1\<close> symbols,
  followed by the symbol of column \<open>w\<close>.\<close>

definition target_row :: "nat \<Rightarrow> nat \<Rightarrow> nat \<Rightarrow> int list \<Rightarrow> int list" where
  "target_row n s w r = take (s - 1) (drop (Suc n) r) @ [r ! w]"

text \<open>The \<open>k\<close>-th batch over the reshaped corpus \<open>arr\<close> with step length \<open>s\<close>.\<close>

definition batch_at :: "int ndarray2 \<Rightarrow> nat \<Rightarrow> nat \<Rightarrow> int ndarray2 \<times> int ndarray2" where
  "batch_at arr s k =
     (slice_cols arr (k * s) (k * s + s),
      \<lparr>shape0 = shape0 arr, shape1 = s,
       rows = map (target_row (k * s) s (if k * s + s < shape1 arr then k * s + s else 0))
                (rows arr)\<rparr>)"

text \<open>The corpus truncated to whole batches and laid out in \<open>n_seqs\<close> rows.\<close>

definition reshaped :: "int list \<Rightarrow> nat \<Rightarrow> nat \<Rightarrow> int ndarray2" where
  "reshaped arr n_seqs n_steps =
     (let n_batches = length arr div (n_seqs * n_steps);
          c = n_batches * n_steps
      in \<lparr>shape0 = n_seqs, shape1 = c,
          rows = map (\<lambda>i. take c (drop (i * c) (take (n_batches * (n_seqs * n_steps)) arr)))
                   [0..<n_seqs]\<rparr>)"

section \<open>The one-hot encoder: \<open>one_hot_encode\<close> (torch notebook)\<close>

text \<open>
  A three-dimensional numpy array: its shape and its entries, \<open>planes A ! i ! j ! k\<close> for
  the entry \<open>(i, j, k)\<close>. The encoder's entries are the float32 values \<open>0.\<close> and \<open>1.\<close>, which
  are exact; they are modelled as the reals \<open>0\<close> and \<open>1\<close>.
\<close>

record 'a ndarray3 =
  dim0 :: nat
  dim1 :: nat
  dim2 :: nat
  planes :: "'a list list list"

text \<open>\<^verbatim>\<open>np.zeros((r, c), dtype=np.float32)\<close>.\<close>

definition zeros2 :: "nat \<Rightarrow> nat \<Rightarrow> real ndarray2" where
  "zeros2 r c = \<lparr>shape0 = r, shape1 = c, rows = replicate r (replicate c 0)\<rparr>"

text \<open>\<^verbatim>\<open>np.arange(n)\<close> and \<^verbatim>\<open>A.flatten()\<close> (row-major).\<close>

definition arange :: "nat \<Rightarrow> nat list" where
  "arange n = [0..<n]"

definition flatten :: "'a ndarray2 \<Rightarrow> 'a list" where
  "flatten A = concat (rows A)"

text \<open>
  \<^verbatim>\<open>A[is, js] = v\<close> with two index arrays (integer-array indexing): the entries
  \<open>(is[p], js[p])\<close> are set to the scalar \<open>v\<close>, in order. A column index \<open>j\<close> is valid
  when \<open>-shape1 \<le> j < shape1\<close>, a negative one counting from the end; any index out of
  bounds raises IndexError. Index arrays of different lengths are reported as IndexError
  (numpy would also broadcast one of length one; the encoder passes two of equal length).
\<close>

fun set_points :: "'a ndarray2 \<Rightarrow> (nat \<times> int) list \<Rightarrow> 'a \<Rightarrow> error + 'a ndarray2" where
  "set_points A [] v = Inr A"
| "set_points A ((i, j) # ps) v =
     (if i < shape0 A \<and> - int (shape1 A) \<le> j \<and> j < int (shape1 A)
      then set_points
             (A\<lparr>rows := (rows A)
                  [i := (rows A ! i)[nat (if j < 0 then j + int (shape1 A) else j) := v]]\<rparr>)
             ps v
      else Inl IndexError)"

definition fancy_assign :: "'a ndarray2 \<Rightarrow> nat list \<Rightarrow> int list \<Rightarrow> 'a \<Rightarrow> error + 'a ndarray2" where
  "fancy_assign A is js v =
     (if length is \<noteq> length js then Inl IndexError else set_points A (zip is js) v)"

text \<open>\<^verbatim>\<open>A.reshape((r, c, n))\<close> of a two-dimensional array: the row-major data cut into
  \<open>r\<close> planes of \<open>c\<close> vectors of length \<open>n\<close>; ValueError when the sizes differ.\<close>

definition reshape3 :: "'a ndarray2 \<Rightarrow> nat \<Rightarrow> nat \<Rightarrow> nat \<Rightarrow> error + 'a ndarray3" where
  "reshape3 A r c n =
     (if shape0 A * shape1 A \<noteq> r * c * n then Inl ValueError
      else Inr \<lparr>dim0 = r, dim1 = c, dim2 = n,
                planes = map (\<lambda>i. map (\<lambda>j. take n (drop ((i * c + j) * n) (flatten A))) [0..<c])
                           [0..<r]\<rparr>)"

text \<open>\<open>one_hot_encode(arr, n_labels)\<close> for a two-dimensional integer array \<open>arr\<close>.\<close>

definition one_hot_encode :: "int ndarray2 \<Rightarrow> nat \<Rightarrow> error + real ndarray3" where
  "one_hot_encode arr n_labels =
     (let one_hot = zeros2 (shape0 arr * shape1 arr) n_labels
      in case fancy_assign one_hot (arange (shape0 one_hot)) (flatten arr) 1 of
           Inl e \<Rightarrow> Inl e
         | Inr one_hot' \<Rightarrow> reshape3 one_hot' (shape0 arr) (shape1 arr) n_labels)"

section \<open>The vocabulary (both notebooks)\<close>

text \<open>
  A Python dict keeps its items in insertion order and its keys unique: it is modelled as
  an association list with distinct keys. Storing under a present key replaces the value
  in place; storing under a new key appends the item.
\<close>

type_synonym ('k, 'v) dict = "('k \<times> 'v) list"

definition dict_set :: "('k, 'v) dict \<Rightarrow> 'k \<Rightarrow> 'v \<Rightarrow> ('k, 'v) dict" where
  "dict_set d k v =
     (if k \<in> fst ` set d then map (\<lambda>(k', v'). if k' = k then (k', v) else (k', v')) d
      else d @ [(k, v)])"

text \<open>\<^verbatim>\<open>dict(pairs)\<close> and the dict comprehension \<^verbatim>\<open>{k: v for ...}\<close>: the pairs are stored
  one after the other, a later pair overriding an earlier one with the same key.\<close>

definition dict_of :: "('k \<times> 'v) list \<Rightarrow> ('k, 'v) dict" where
  "dict_of ps = fold (\<lambda>(k, v) d. dict_set d k v) ps []"

text \<open>\<^verbatim>\<open>d[k]\<close>: KeyError for a missing key.\<close>

definition dict_get :: "('k, 'v) dict \<Rightarrow> 'k \<Rightarrow> error + 'v" where
  "dict_get d k = (case map_of d k of None \<Rightarrow> Inl KeyError | Some v \<Rightarrow> Inr v)"

text \<open>\<^verbatim>\<open>enumerate(xs)\<close>.\<close>

definition py_enumerate :: "'a list \<Rightarrow> (nat \<times> 'a) list" where
  "py_enumerate xs = zip [0..<length xs] xs"

text \<open>
  The torch notebook, from \<^verbatim>\<open>chars = tuple(set(text))\<close> on (and \<open>CharRNN.__init__\<close>, from
  \<^verbatim>\<open>self.chars = tokens\<close> on):
  \<^verbatim>\<open>int2char = dict(enumerate(chars))\<close>,
  \<^verbatim>\<open>char2int = {ch: ii for ii, ch in int2char.items()}\<close>.
  The order in which \<^verbatim>\<open>set(text)\<close> is iterated is not specified by Python: \<open>chars\<close> is any
  list of the distinct symbols of the text, each once.
\<close>

definition int2char_of :: "'a list \<Rightarrow> (nat, 'a) dict" where
  "int2char_of chars = dict_of (py_enumerate chars)"

definition char2int_of :: "'a list \<Rightarrow> ('a, nat) dict" where
  "char2int_of chars = dict_of (map (\<lambda>(ii, ch). (ch, ii)) (int2char_of chars))"

definition is_set_order :: "'a list \<Rightarrow> 'a list \<Rightarrow> bool" where
  "is_set_order chars text = (distinct chars \<and> set chars = set text)"

text \<open>
  The Keras notebooks: \<^verbatim>\<open>chars = sorted(list(set(text)))\<close>,
  \<^verbatim>\<open>char_indices = dict((c, i) for i, c in enumerate(chars))\<close>,
  \<^verbatim>\<open>indices_char = dict((i, c) for i, c in enumerate(chars))\<close>.
  Symbols are ordered as Python orders characters; the model takes any linear order.
\<close>

definition sorted_chars :: "'a::linorder list \<Rightarrow> 'a list" where
  "sorted_chars text = sort (remdups text)"

definition char_indices :: "'a::linorder list \<Rightarrow> ('a, nat) dict" where
  "char_indices text = dict_of (map (\<lambda>(i, c). (c, i)) (py_enumerate (sorted_chars text)))"

definition indices_char :: "'a::linorder list \<Rightarrow> (nat, 'a) dict" where
  "indices_char text = dict_of (map (\<lambda>(i, c). (i, c)) (py_enumerate (sorted_chars text)))"

text \<open>
  What the vocabulary claim states of a pair of dicts over the symbols \<open>S\<close> of a text:
  the indices are \<open>0..V-1\<close> for \<open>V = card S\<close>, the symbols are those of \<open>S\<close>, the
  symbol-to-index map is a bijection between them, and the two maps are inverse to each
  other in both directions.
\<close>

definition vocab_bijection :: "(nat, 'a) dict \<Rightarrow> ('a, nat) dict \<Rightarrow> 'a set \<Rightarrow> bool" where
  "vocab_bijection i2c c2i S =
     (dom (map_of i2c) = {0..<card S}
    \<and> dom (map_of c2i) = S
    \<and> bij_betw (\<lambda>c. the (map_of c2i c)) S {0..<card S}
    \<and> (\<forall>i < card S. \<exists>c. dict_get i2c i = Inr c \<and> dict_get c2i c = Inr i)
    \<and> (\<forall>c \<in> S. \<exists>i. dict_get c2i c = Inr i \<and> dict_get i2c i = Inr c))"

section \<open>Vectorization (the unnamed Keras notebook)\<close>

text \<open>
  \<^verbatim>\<open>for i in range(0, len(text) - max_len, step)\<close>: the sentence \<^verbatim>\<open>text[i:i+max_len]\<close> and
  the symbol after it, \<^verbatim>\<open>text[i+max_len]\<close>, from offset \<open>i\<close> on. The loop condition
  \<open>i < len(text) - max_len\<close> is \<open>i + max_len < len(text)\<close>, so the index is in range.
  \<^verbatim>\<open>range\<close> raises ValueError for a zero step. The notebook fixes \<open>max_len = 40\<close> and
  \<open>step = 3\<close>.
\<close>

function cut_from :: "'a list \<Rightarrow> nat \<Rightarrow> nat \<Rightarrow> nat \<Rightarrow> 'a list list \<times> 'a list" where
  "cut_from text max_len step i =
     (if step = 0 \<or> \<not> i + max_len < length text then ([], [])
      else (let (sentences, next_chars) = cut_from text max_len step (i + step)
            in (take max_len (drop i text) # sentences, text ! (i + max_len) # next_chars)))"
  by pat_completeness auto
termination
  by (relation "measure (\<lambda>(text, max_len, step, i). length text - max_len - i)") auto

declare cut_from.simps [simp del]

definition cut_sentences :: "'a list \<Rightarrow> nat \<Rightarrow> nat \<Rightarrow> error + 'a list list \<times> 'a list" where
  "cut_sentences text max_len step =
     (if step = 0 then Inl ValueError else Inr (cut_from text max_len step 0))"

text \<open>\<^verbatim>\<open>np.zeros(shape, dtype=np.bool)\<close> in three and in two dimensions.\<close>

definition zeros3_bool :: "nat \<Rightarrow> nat \<Rightarrow> nat \<Rightarrow> bool ndarray3" where
  "zeros3_bool n m v =
     \<lparr>dim0 = n, dim1 = m, dim2 = v, planes = replicate n (replicate m (replicate v False))\<rparr>"

definition zeros2_bool :: "nat \<Rightarrow> nat \<Rightarrow> bool ndarray2" where
  "zeros2_bool n v = \<lparr>shape0 = n, shape1 = v, rows = replicate n (replicate v False)\<rparr>"

text \<open>\<^verbatim>\<open>x[i, t, k] = v\<close> and the read \<^verbatim>\<open>y[i, k]\<close>, for non-negative indices.\<close>

definition set3 :: "'a ndarray3 \<Rightarrow> nat \<Rightarrow> nat \<Rightarrow> nat \<Rightarrow> 'a \<Rightarrow> error + 'a ndarray3" where
  "set3 A i t k v =
     (if i < dim0 A \<and> t < dim1 A \<and> k < dim2 A
      then Inr (A\<lparr>planes := (planes A)[i := (planes A ! i)[t := (planes A ! i ! t)[k := v]]]\<rparr>)
      else Inl IndexError)"

definition get2 :: "'a ndarray2 \<Rightarrow> nat \<Rightarrow> nat \<Rightarrow> error + 'a" where
  "get2 A i k =
     (if i < shape0 A \<and> k < shape1 A then Inr (rows A ! i ! k) else Inl IndexError)"

text \<open>\<^verbatim>\<open>xs[i]\<close> on a list, for a non-negative index.\<close>

definition list_get :: "'a list \<Rightarrow> nat \<Rightarrow> error + 'a" where
  "list_get xs i = (if i < length xs then Inr (xs ! i) else Inl IndexError)"

text \<open>The inner loop \<^verbatim>\<open>for t, char in enumerate(sentence): x[i, t, char_indices[char]] = 1\<close>.\<close>

fun fill_sentence ::
  "bool ndarray3 \<Rightarrow> ('a, nat) dict \<Rightarrow> nat \<Rightarrow> (nat \<times> 'a) list \<Rightarrow> error + bool ndarray3" where
  "fill_sentence x ci i [] = Inr x"
| "fill_sentence x ci i ((t, char) # rest) =
     (case dict_get ci char of
        Inl e \<Rightarrow> Inl e
      | Inr k \<Rightarrow>
         (case set3 x i t k True of
            Inl e \<Rightarrow> Inl e
          | Inr x' \<Rightarrow> fill_sentence x' ci i rest))"

text \<open>
  The outer loop \<^verbatim>\<open>for i, sentence in enumerate(sentences)\<close>. Its last statement,
  \<^verbatim>\<open>y[i, char_indices[next_chars[i]]]\<close>, is an expression statement: it evaluates the
  subscripts, which may raise, and discards the value read; \<open>y\<close> is not assigned.
\<close>

fun vectorize_loop ::
  "bool ndarray3 \<Rightarrow> bool ndarray2 \<Rightarrow> ('a, nat) dict \<Rightarrow> 'a list \<Rightarrow> (nat \<times> 'a list) list
     \<Rightarrow> error + bool ndarray3 \<times> bool ndarray2" where
  "vectorize_loop x y ci next_chars [] = Inr (x, y)"
| "vectorize_loop x y ci next_chars ((i, sentence) # rest) =
     (case fill_sentence x ci i (py_enumerate sentence) of
        Inl e \<Rightarrow> Inl e
      | Inr x' \<Rightarrow>
         (case list_get next_chars i of
            Inl e \<Rightarrow> Inl e
          | Inr c \<Rightarrow>
             (case dict_get ci c of
                Inl e \<Rightarrow> Inl e
              | Inr k \<Rightarrow>
                 (case get2 y i k of
                    Inl e \<Rightarrow> Inl e
                  | Inr _ \<Rightarrow> vectorize_loop x' y ci next_chars rest))))"

text \<open>The cells from \<^verbatim>\<open>chars = sorted(list(set(text)))\<close> to the vectorization loop.\<close>

definition vectorize ::
  "'a::linorder list \<Rightarrow> nat \<Rightarrow> nat \<Rightarrow> error + bool ndarray3 \<times> bool ndarray2" where
  "vectorize text max_len step =
     (case cut_sentences text max_len step of
        Inl e \<Rightarrow> Inl e
      | Inr (sentences, next_chars) \<Rightarrow>
          (let chars = sorted_chars text;
               x = zeros3_bool (length sentences) max_len (length chars);
               y = zeros2_bool (length sentences) (length chars)
           in vectorize_loop x y (char_indices text) next_chars (py_enumerate sentences)))"

definition max_len :: nat where
  "max_len = 40"

definition step :: nat where
  "step = 3"

section \<open>The sampler: \<open>CharRNN.predict\<close> and \<open>sample\<close> (torch notebook)\<close>

subsection \<open>numpy and torch operations used by \<open>predict\<close>\<close>

text \<open>
  The result of \<^verbatim>\<open>A.squeeze()\<close> on a two-dimensional array: axes of length one are
  removed, which leaves a zero-dimensional array (one value), a one-dimensional array
  or the array itself. numpy arithmetic on a zero-dimensional array gives a scalar; both
  are \<open>Scalar\<close> here.
\<close>

datatype 'a squeezed = Scalar 'a | Vec "'a list" | Mat "'a ndarray2"

definition squeeze :: "'a ndarray2 \<Rightarrow> 'a squeezed" where
  "squeeze A =
     (case rows A of
        [r] \<Rightarrow> (case r of [v] \<Rightarrow> Scalar v | _ \<Rightarrow> Vec r)
      | rs \<Rightarrow> if shape1 A = 1 then Vec (map hd rs) else Mat A)"

text \<open>\<^verbatim>\<open>p.sum()\<close> and \<^verbatim>\<open>p / s\<close> for a squeezed array. Probabilities are modelled as
  reals: float rounding is not part of the model, and \<open>x / 0\<close> is \<open>0\<close> in HOL where numpy
  gives \<open>nan\<close> or \<open>inf\<close> (the statements below assume positive probabilities).\<close>

definition sum_all :: "real squeezed \<Rightarrow> real" where
  "sum_all p =
     (case p of Scalar v \<Rightarrow> v | Vec vs \<Rightarrow> sum_list vs | Mat A \<Rightarrow> sum_list (concat (rows A)))"

definition divide_by :: "real squeezed \<Rightarrow> real \<Rightarrow> real squeezed" where
  "divide_by p s =
     (case p of
        Scalar v \<Rightarrow> Scalar (v / s)
      | Vec vs \<Rightarrow> Vec (map (\<lambda>v. v / s) vs)
      | Mat A \<Rightarrow> Mat (A\<lparr>rows := map (map (\<lambda>v. v / s)) (rows A)\<rparr>))"

text \<open>
  \<^verbatim>\<open>p.topk(k)\<close> on a two-dimensional tensor: along the last axis, the \<open>k\<close> largest
  values of each row in descending order, and their indices. torch raises RuntimeError
  when \<open>k\<close> exceeds the row length. torch does not specify the order of equal values; the
  model keeps the lower index first.
\<close>

definition topk_row :: "real list \<Rightarrow> nat \<Rightarrow> (real \<times> nat) list" where
  "topk_row r k = take k (sort_key (\<lambda>(v, i). - v) (zip r [0..<length r]))"

definition topk :: "real ndarray2 \<Rightarrow> nat \<Rightarrow> error + real ndarray2 \<times> nat ndarray2" where
  "topk p k =
     (if shape1 p < k then Inl RuntimeError
      else Inr (\<lparr>shape0 = shape0 p, shape1 = k, rows = map (\<lambda>r. map fst (topk_row r k)) (rows p)\<rparr>,
                \<lparr>shape0 = shape0 p, shape1 = k, rows = map (\<lambda>r. map snd (topk_row r k)) (rows p)\<rparr>))"

text \<open>
  The random number generator: the stream of uniform draws from \<open>[0, 1)\<close> that
  \<^verbatim>\<open>random_sample\<close> will return, consumed one draw at a time.
\<close>

type_synonym rng = "nat \<Rightarrow> real"

definition draw :: "rng \<Rightarrow> real \<times> rng" where
  "draw g = (g 0, \<lambda>n. g (Suc n))"

definition wf_rng :: "rng \<Rightarrow> bool" where
  "wf_rng g = (\<forall>n. 0 \<le> g n \<and> g n < 1)"

text \<open>\<^verbatim>\<open>p.cumsum()\<close> and \<^verbatim>\<open>cdf.searchsorted(u, side='right')\<close> on a sorted array: the
  number of entries that are at most \<open>u\<close>.\<close>

fun cumsum_from :: "real \<Rightarrow> real list \<Rightarrow> real list" where
  "cumsum_from acc [] = []"
| "cumsum_from acc (v # vs) = (acc + v) # cumsum_from (acc + v) vs"

definition cumsum :: "real list \<Rightarrow> real list" where
  "cumsum vs = cumsum_from 0 vs"

definition searchsorted_right :: "real list \<Rightarrow> real \<Rightarrow> nat" where
  "searchsorted_right cdf u = length (filter (\<lambda>c. c \<le> u) cdf)"

text \<open>The tolerance of \<^verbatim>\<open>np.random.choice\<close> for probabilities given in float32:
  \<open>sqrt(eps)\<close> with \<open>eps = 2\<^sup>-\<^sup>2\<^sup>3\<close>.\<close>

definition atol :: real where
  "atol = sqrt (1 / 2 ^ 23)"

text \<open>
  \<^verbatim>\<open>np.random.choice(a, p=p)\<close> for one draw with replacement, as numpy's
  \<^verbatim>\<open>RandomState.choice\<close> does it:
  \<^item> a zero-dimensional \<open>a\<close> is read as an integer population size, which must be
    positive (ValueError); a one-dimensional \<open>a\<close> must not be empty (ValueError); any other
    \<open>a\<close> is refused (ValueError);
  \<^item> then \<^verbatim>\<open>len(p)\<close> is taken, which raises TypeError for a scalar \<open>p\<close>; \<open>p\<close> must be
    one-dimensional, of the population's size, non-negative and sum to one within the
    tolerance (ValueError otherwise);
  \<^item> the draw: \<^verbatim>\<open>cdf = p.cumsum(); cdf /= cdf[-1]; idx = cdf.searchsorted(u, side='right')\<close>
    for one uniform \<open>u\<close>, and the result is \<open>a[idx]\<close> (or \<open>idx\<close> for an integer \<open>a\<close>).
\<close>

definition population :: "nat squeezed \<Rightarrow> error + nat list" where
  "population a =
     (case a of
        Scalar n \<Rightarrow> if n = 0 then Inl ValueError else Inr [0..<n]
      | Vec xs \<Rightarrow> if xs = [] then Inl ValueError else Inr xs
      | Mat A \<Rightarrow> Inl ValueError)"

definition random_choice :: "nat squeezed \<Rightarrow> real squeezed \<Rightarrow> rng \<Rightarrow> error + nat \<times> rng" where
  "random_choice a p g =
     (case population a of
        Inl e \<Rightarrow> Inl e
      | Inr pop \<Rightarrow>
         (case p of
            Scalar v \<Rightarrow> Inl TypeError
          | Mat A \<Rightarrow> Inl ValueError
          | Vec ps \<Rightarrow>
              if length ps \<noteq> length pop then Inl ValueError
              else if list_ex (\<lambda>v. v < 0) ps then Inl ValueError
              else if \<bar>sum_list ps - 1\<bar> > atol then Inl ValueError
              else (let cdf = cumsum ps;
                        cdf' = map (\<lambda>c. c / last cdf) cdf;
                        (u, g') = draw g;
                        idx = searchsorted_right cdf' u
                    in if idx < length pop then Inr (pop ! idx, g') else Inl IndexError)))"

subsection \<open>The network\<close>

text \<open>
  A \<open>CharRNN\<close>: its tokens \<open>chars\<close>, and the two library computations that \<open>predict\<close> and
  \<open>sample\<close> call. \<open>softmax_forward\<close> stands for \<^verbatim>\<open>self.forward(inputs, h)\<close> followed by
  \<^verbatim>\<open>F.softmax(out).data\<close>: the LSTM, the linear layer and the softmax are tensor
  operations of the library and are taken as a parameter; it receives the one-hot input
  and the hidden state and returns the probabilities and the new hidden state.
  \<open>init_hidden\<close> is the method of that name. \<open>__init__\<close> derives \<open>int2char\<close> and \<open>char2int\<close>
  from \<open>chars\<close> and nothing assigns them afterwards.
\<close>

record ('c, 'h) CharRNN =
  chars :: "'c list"
  softmax_forward :: "real ndarray3 \<Rightarrow> 'h \<Rightarrow> real ndarray2 \<times> 'h"
  init_hidden :: "nat \<Rightarrow> 'h"

definition int2char :: "('c, 'h) CharRNN \<Rightarrow> (nat, 'c) dict" where
  "int2char net = int2char_of (chars net)"

definition char2int :: "('c, 'h) CharRNN \<Rightarrow> ('c, nat) dict" where
  "char2int net = char2int_of (chars net)"

text \<open>
  What the library guarantees of \<open>softmax_forward\<close> on a one-symbol input: one row of
  probabilities, one per token, each positive (a softmax). The tokens are distinct, as
  \<^verbatim>\<open>tuple(set(text))\<close> makes them.
\<close>

definition wf_net :: "('c, 'h) CharRNN \<Rightarrow> bool" where
  "wf_net net =
     (distinct (chars net)
    \<and> (\<forall>x h. length (rows (fst (softmax_forward net x h))) = 1
             \<and> shape0 (fst (softmax_forward net x h)) = 1
             \<and> shape1 (fst (softmax_forward net x h)) = length (chars net)
             \<and> length (hd (rows (fst (softmax_forward net x h)))) = length (chars net)
             \<and> (\<forall>v \<in> set (hd (rows (fst (softmax_forward net x h)))). 0 < v)))"

subsection \<open>\<open>predict\<close> and \<open>sample\<close>\<close>

text \<open>
  The candidates of \<open>predict\<close>: \<^verbatim>\<open>np.arange(len(self.chars))\<close> with the probabilities as
  they are when \<open>top_k\<close> is \<open>None\<close>, the result of \<^verbatim>\<open>p.topk(top_k)\<close> with the indices
  squeezed otherwise.
\<close>

definition candidates ::
  "('c, 'h) CharRNN \<Rightarrow> real ndarray2 \<Rightarrow> nat option \<Rightarrow> error + real ndarray2 \<times> nat squeezed" where
  "candidates net p top_k =
     (case top_k of
        None \<Rightarrow> Inr (p, Vec (arange (length (chars net))))
      | Some k \<Rightarrow>
         (case topk p k of
            Inl e \<Rightarrow> Inl e
          | Inr (p', top_ch) \<Rightarrow> Inr (p', squeeze top_ch)))"

text \<open>
  \<open>net.predict(char, h, top_k=top_k)\<close>, with the generator passed through. Moving the
  network between devices has no effect on the values.
\<close>

definition predict ::
  "('c, 'h) CharRNN \<Rightarrow> 'c \<Rightarrow> 'h option \<Rightarrow> nat option \<Rightarrow> rng \<Rightarrow> error + 'c \<times> 'h \<times> rng" where
  "predict net char h top_k g =
     (let h0 = (case h of None \<Rightarrow> init_hidden net 1 | Some h' \<Rightarrow> h')
      in case dict_get (char2int net) char of
           Inl e \<Rightarrow> Inl e
         | Inr ix \<Rightarrow>
            (case one_hot_encode \<lparr>shape0 = 1, shape1 = 1, rows = [[int ix]]\<rparr> (length (chars net)) of
               Inl e \<Rightarrow> Inl e
             | Inr x \<Rightarrow>
                (let (p, h1) = softmax_forward net x h0
                 in case candidates net p top_k of
                      Inl e \<Rightarrow> Inl e
                    | Inr (p', top_ch) \<Rightarrow>
                       (let ps = squeeze p'
                        in case random_choice top_ch (divide_by ps (sum_all ps)) g of
                             Inl e \<Rightarrow> Inl e
                           | Inr (ix', g') \<Rightarrow>
                              (case dict_get (int2char net) ix' of
                                 Inl e \<Rightarrow> Inl e
                               | Inr c \<Rightarrow> Inr (c, h1, g'))))))"

text \<open>
  The first loop of \<open>sample\<close>, \<^verbatim>\<open>for ch in prime: char, h = net.predict(ch, h, ...)\<close>:
  \<open>char\<close> is unbound until the first iteration has run.
\<close>

fun prime_loop ::
  "('c, 'h) CharRNN \<Rightarrow> nat option \<Rightarrow> 'c option \<Rightarrow> 'h \<Rightarrow> rng \<Rightarrow> 'c list
     \<Rightarrow> error + 'c option \<times> 'h \<times> rng" where
  "prime_loop net top_k char h g [] = Inr (char, h, g)"
| "prime_loop net top_k char h g (ch # rest) =
     (case predict net ch (Some h) top_k g of
        Inl e \<Rightarrow> Inl e
      | Inr (c, h', g') \<Rightarrow> prime_loop net top_k (Some c) h' g' rest)"

text \<open>The second loop, \<^verbatim>\<open>for ii in range(size)\<close>, with \<open>n\<close> iterations left: each
  feeds \<^verbatim>\<open>chars[-1]\<close> to \<open>predict\<close> and appends the result.\<close>

fun gen_loop ::
  "('c, 'h) CharRNN \<Rightarrow> nat option \<Rightarrow> nat \<Rightarrow> 'c list \<Rightarrow> 'h \<Rightarrow> rng \<Rightarrow> error + 'c list" where
  "gen_loop net top_k 0 cs h g = Inr cs"
| "gen_loop net top_k (Suc n) cs h g =
     (case list_get cs (length cs - 1) of
        Inl e \<Rightarrow> Inl e
      | Inr lst \<Rightarrow>
         (case predict net lst (Some h) top_k g of
            Inl e \<Rightarrow> Inl e
          | Inr (c, h', g') \<Rightarrow> gen_loop net top_k n (cs @ [c]) h' g'))"

text \<open>
  \<open>sample(net, size, prime, top_k)\<close>, the requested \<open>size\<close> written \<open>sz\<close>.
  \<^verbatim>\<open>range(size)\<close> is empty for a negative \<open>size\<close>.
  After the first loop \<^verbatim>\<open>chars.append(char)\<close> raises UnboundLocalError when the loop
  never ran. The returned string \<^verbatim>\<open>''.join(chars)\<close> is the list of its symbols.
\<close>

definition sample ::
  "('c, 'h) CharRNN \<Rightarrow> int \<Rightarrow> 'c list \<Rightarrow> nat option \<Rightarrow> rng \<Rightarrow> error + 'c list" where
  "sample net sz prime top_k g =
     (case prime_loop net top_k None (init_hidden net 1) g prime of
        Inl e \<Rightarrow> Inl e
      | Inr (None, h, g') \<Rightarrow> Inl UnboundLocalError
      | Inr (Some char, h, g') \<Rightarrow> gen_loop net top_k (nat sz) (prime @ [char]) h g')"

text \<open>
  The settings of \<open>top_k\<close> for which the statements below show that \<open>predict\<close> returns:
  \<open>None\<close> with at least two tokens, or a \<open>K\<close> from two up to the number of tokens.
\<close>

definition top_k_supported :: "('c, 'h) CharRNN \<Rightarrow> nat option \<Rightarrow> bool" where
  "top_k_supported net top_k =
     (case top_k of
        None \<Rightarrow> 2 \<le> length (chars net)
      | Some k \<Rightarrow> 2 \<le> k \<and> k \<le> length (chars net))"

text \<open>
  A small network and generator for concrete runs: three tokens, a softmax output that
  is \<open>(1/6, 1/2, 1/3)\<close> whatever the input, no hidden state; every uniform draw is \<open>7/10\<close>.
\<close>

definition example_net :: "(char, unit) CharRNN" where
  "example_net =
     \<lparr>chars = ''abc'',
      softmax_forward =
        (\<lambda>x h. (\<lparr>shape0 = 1, shape1 = 3, rows = [[1 / 6, 1 / 2, 1 / 3]]\<rparr>, ())),
      init_hidden = (\<lambda>n. ())\<rparr>"

definition example_rng :: rng where
  "example_rng = (\<lambda>n. 7 / 10)"

section \<open>The temperature sampler: \<open>sample(preds, temperature)\<close> (Keras notebook)\<close>

text \<open>
  The helper up to its call of the library's sampler, over the reals:
  \<^verbatim>\<open>preds = np.log(preds) / temperature\<close>, \<^verbatim>\<open>exp_preds = np.exp(preds)\<close>,
  \<^verbatim>\<open>probas = np.random.multinomial(1, preds, 1)\<close>. \<open>multinomial_pvals\<close> is the vector
  the code passes to \<^verbatim>\<open>np.random.multinomial\<close> as the probabilities: the variable
  \<open>preds\<close>. \<open>exp_preds\<close> is computed and not used.
\<close>

definition multinomial_pvals :: "real list \<Rightarrow> real \<Rightarrow> real list" where
  "multinomial_pvals preds temperature =
     (let preds1 = map (\<lambda>p. ln p / temperature) preds;
          exp_preds = map exp preds1
      in preds1)"

text \<open>
  The distribution the claim names, in its words: the log-probabilities divided by the
  temperature, exponentiated, and renormalized, which is proportional to
  \<open>preds powr (1 / temperature)\<close>.
\<close>

definition claimed_distribution :: "real list \<Rightarrow> real \<Rightarrow> real list" where
  "claimed_distribution preds temperature =
     (let w = map (\<lambda>p. exp (ln p / temperature)) preds
      in map (\<lambda>v. v / sum_list w) w)"
section \<open>Properties of the batcher\<close>


lemma reshape_rows_Inr:
  assumes "0 < n" "length a mod n = 0"
  shows "reshape_rows a n = Inr \<lparr>shape0 = n, shape1 = length a div n,
            rows = map (\<lambda>i. take (length a div n) (drop (i * (length a div n)) a)) [0..<n]\<rparr>"
  using assms by (simp add: reshape_rows_def Let_def)

lemma reshape_rows_wf:
  assumes "reshape_rows a n = Inr A"
  shows "wf2 A \<and> shape0 A = n \<and> shape1 A = length a div n"
proof -
  from assms have n: "0 < n" and m: "length a mod n = 0"
    by (auto simp: reshape_rows_def split: if_splits)
  let ?c = "length a div n"
  have len: "length a = n * ?c" using m by (metis mult_div_mod_eq add.right_neutral)
  have A: "A = \<lparr>shape0 = n, shape1 = ?c, rows = map (\<lambda>i. take ?c (drop (i * ?c) a)) [0..<n]\<rparr>"
    using assms reshape_rows_Inr [OF n m] by simp
  have "\<And>i. i < n \<Longrightarrow> ?c \<le> length a - i * ?c"
  proof -
    fix i assume "i < n"
    then have "Suc i \<le> n" by simp
    then have "Suc i * ?c \<le> n * ?c" by (rule mult_le_mono1)
    then show "?c \<le> length a - i * ?c" using len by simp
  qed
  then have "list_all (\<lambda>r. length r = ?c) (map (\<lambda>i. take ?c (drop (i * ?c) a)) [0..<n])"
    by (fastforce simp: list_all_iff)
  then show ?thesis unfolding A wf2_def by simp
qed

lemma map2_replicate_map:
  "length xs = R \<Longrightarrow> map2 f (replicate R z) (map g xs) = map (\<lambda>x. f z (g x)) xs"
  by (induction xs arbitrary: R) auto

lemma map2_map_map_same:
  "map2 f (map g xs) (map h xs) = map (\<lambda>x. f (g x) (h x)) xs"
  by (induction xs) auto

lemma target_row_assign2:
  assumes lr: "length r = C" and fit: "n + s \<le> C" and s: "0 < s"
  shows "(take (s - 1) (drop 1 (take s (drop n r)))
            @ drop (length (take (s - 1) (drop 1 (take s (drop n r))))) (replicate s (0::int)))
          [s - 1 := c]
         = take (s - 1) (drop (Suc n) r) @ [c]"
proof -
  obtain k where k: "s = Suc k" using s by (cases s) auto
  have l: "length (take k (drop (Suc n) r)) = k" using lr fit k by simp
  have t: "take k (drop 1 (take (Suc k) (drop n r))) = take k (drop (Suc n) r)"
    by (simp add: drop_take)
  have d: "drop k (replicate (Suc k) (0::int)) = [0]" by (simp only: drop_replicate) simp
  have "(take k (drop (Suc n) r) @ [0])[k := c] = take k (drop (Suc n) r) @ [c]"
    using l by (simp add: list_update_append)
  then have "(take k (drop (Suc n) r) @ drop k (replicate (Suc k) (0::int)))[k := c]
        = take k (drop (Suc n) r) @ [c]"
    unfolding d .
  then have "(take k (drop 1 (take (Suc k) (drop n r)))
            @ drop (length (take k (drop 1 (take (Suc k) (drop n r))))) (replicate (Suc k) (0::int)))
          [k := c] = take k (drop (Suc n) r) @ [c]"
    unfolding t l .
  then show ?thesis unfolding k by (simp only: diff_Suc_1)
qed

lemma assign_targets_rows:
  assumes wf: "wf2 arr" and s: "0 < s" and fit: "n + s \<le> shape1 arr"
  shows "assign_targets (zeros_like (slice_cols arr n (n + s)))
            (slice_cols (slice_cols arr n (n + s)) 1 (shape1 (slice_cols arr n (n + s))))
            (map (\<lambda>r. r ! w) (rows arr))
         = Inr \<lparr>shape0 = shape0 arr, shape1 = s, rows = map (target_row n s w) (rows arr)\<rparr>"
proof -
  have len: "length (rows arr) = shape0 arr" and rl: "\<And>r. r \<in> set (rows arr) \<Longrightarrow> length r = shape1 arr"
    using wf by (auto simp: wf2_def list_all_iff)
  define F where "F = (\<lambda>r. take (s - 1) (drop 1 (take s (drop n r)))
                     @ drop (length (take (s - 1) (drop 1 (take s (drop n r))))) (replicate s (0::int)))"
  have sh: "shape1 (slice_cols arr n (n + s)) = s"
    using fit by (simp add: slice_cols_def min_def)
  have sh0: "shape0 (slice_cols arr n (n + s)) = shape0 arr"
    by (simp add: slice_cols_def)
  have v: "slice_cols (slice_cols arr n (n + s)) 1 s
           = \<lparr>shape0 = shape0 arr, shape1 = s - 1,
              rows = map (\<lambda>r. take (s - 1) (drop 1 (take s (drop n r)))) (rows arr)\<rparr>"
    using s sh by (simp add: slice_cols_def min_def)
  have step1: "set_cols_but_last (zeros_like (slice_cols arr n (n + s))) (slice_cols (slice_cols arr n (n + s)) 1 s)
     = Inr \<lparr>shape0 = shape0 arr, shape1 = s, rows = map F (rows arr)\<rparr>"
    unfolding v set_cols_but_last_def zeros_like_def sh sh0 F_def
    using len by (simp add: map2_replicate_map)
  have pt: "\<And>r. r \<in> set (rows arr) \<Longrightarrow> (F r)[s - 1 := r ! w] = target_row n s w r"
  proof -
    fix r assume "r \<in> set (rows arr)"
    then have "length r = shape1 arr" by (rule rl)
    then show "(F r)[s - 1 := r ! w] = target_row n s w r"
      unfolding F_def target_row_def by (rule target_row_assign2 [OF _ fit s])
  qed
  have step2: "set_last_col \<lparr>shape0 = shape0 arr, shape1 = s, rows = map F (rows arr)\<rparr>
            (map (\<lambda>r. r ! w) (rows arr))
      = Inr \<lparr>shape0 = shape0 arr, shape1 = s, rows = map (target_row n s w) (rows arr)\<rparr>"
    unfolding set_last_col_def
    using s len pt by (simp add: map2_map_map_same)
  show ?thesis unfolding assign_targets_def sh step1 using step2 by simp
qed

lemma try_targets_inner:
  assumes wf: "wf2 arr" and s: "0 < s" and fit: "n + s < shape1 arr"
  shows "try_targets arr (slice_cols arr n (n + s)) n s
         = Inr \<lparr>shape0 = shape0 arr, shape1 = s, rows = map (target_row n s (n + s)) (rows arr)\<rparr>"
proof -
  have le: "n + s \<le> shape1 arr" using fit by simp
  show ?thesis
    unfolding try_targets_def get_col_def using fit
    by (simp add: assign_targets_rows [OF wf s le] del: One_nat_def)
qed

lemma try_targets_last:
  assumes "n + s = shape1 arr"
  shows "try_targets arr x n s = Inl IndexError"
  using assms by (simp add: try_targets_def get_col_def)

lemma except_targets_eq:
  assumes wf: "wf2 arr" and s: "0 < s" and fit: "n + s \<le> shape1 arr"
  shows "except_targets arr (slice_cols arr n (n + s))
         = Inr \<lparr>shape0 = shape0 arr, shape1 = s, rows = map (target_row n s 0) (rows arr)\<rparr>"
proof -
  have pos: "0 < shape1 arr" using s fit by simp
  show ?thesis
    unfolding except_targets_def get_col_def using pos
    by (simp add: assign_targets_rows [OF wf s fit] del: One_nat_def)
qed

lemma make_targets_eq:
  assumes wf: "wf2 arr" and s: "0 < s" and fit: "n + s \<le> shape1 arr"
  shows "make_targets arr (slice_cols arr n (n + s)) n s
         = Inr \<lparr>shape0 = shape0 arr, shape1 = s,
                rows = map (target_row n s (if n + s < shape1 arr then n + s else 0)) (rows arr)\<rparr>"
proof (cases "n + s < shape1 arr")
  case True
  then show ?thesis
    unfolding make_targets_def by (simp add: try_targets_inner [OF wf s True])
next
  case False
  then have e: "n + s = shape1 arr" using fit by simp
  show ?thesis
    unfolding make_targets_def try_targets_last [OF e] using False
    by (simp add: except_targets_eq [OF wf s fit])
qed

lemma batches_loop_eq:
  assumes wf: "wf2 arr" and s: "0 < s" and m: "shape1 arr = m * s"
  shows "k \<le> m \<Longrightarrow> batches_loop arr s (k * s) = Inr (map (batch_at arr s) [k..<m])"
proof (induction "m - k" arbitrary: k)
  case 0
  then have "k = m" by simp
  then show ?case using s m by (subst batches_loop.simps) simp
next
  case (Suc d)
  then have lt: "k < m" by simp
  then have "Suc k \<le> m" by simp
  then have "Suc k * s \<le> m * s" by (rule mult_le_mono1)
  then have fit: "k * s + s \<le> shape1 arr" using m by (simp add: add.commute)
  have nle: "\<not> shape1 arr \<le> k * s" using fit s by simp
  have IH: "batches_loop arr s (k * s + s) = Inr (map (batch_at arr s) [Suc k..<m])"
    using Suc.hyps(1) [of "Suc k"] Suc.hyps(2) lt by (simp add: add.commute)
  have up: "[k..<m] = k # [Suc k..<m]" using lt by (simp add: upt_conv_Cons)
  show ?case
    unfolding batches_loop.simps [of arr s "k * s"] make_targets_eq [OF wf s fit] IH up
    using s nle by (simp add: batch_at_def)
qed

lemma reshape_truncated:
  assumes q: "0 < n_seqs"
  shows "reshape_rows (take (length arr div (n_seqs * n_steps) * (n_seqs * n_steps)) arr) n_seqs
         = Inr (reshaped arr n_seqs n_steps)"
proof -
  let ?nb = "length arr div (n_seqs * n_steps)"
  have le: "?nb * (n_seqs * n_steps) \<le> length arr" by simp
  have len: "length (take (?nb * (n_seqs * n_steps)) arr) = n_seqs * (?nb * n_steps)"
    using le by (simp add: mult.assoc mult.left_commute min_def)
  have m: "length (take (?nb * (n_seqs * n_steps)) arr) mod n_seqs = 0"
    unfolding len by simp
  have d: "length (take (?nb * (n_seqs * n_steps)) arr) div n_seqs = ?nb * n_steps"
    unfolding len using q by simp
  show ?thesis
    unfolding reshape_rows_Inr [OF q m] d reshaped_def Let_def ..
qed

lemma reshaped_shape:
  "shape0 (reshaped arr n_seqs n_steps) = n_seqs"
  "shape1 (reshaped arr n_seqs n_steps) = length arr div (n_seqs * n_steps) * n_steps"
  by (simp_all add: reshaped_def Let_def)

lemma reshaped_wf: "0 < n_seqs \<Longrightarrow> wf2 (reshaped arr n_seqs n_steps)"
  using reshape_rows_wf [OF reshape_truncated] by blast

lemma get_batches_eq:
  assumes q: "0 < n_seqs" and s: "0 < n_steps"
  shows "get_batches arr n_seqs n_steps
         = Inr (map (batch_at (reshaped arr n_seqs n_steps) n_steps)
                  [0..<length arr div (n_seqs * n_steps)])"
proof -
  have "batches_loop (reshaped arr n_seqs n_steps) n_steps (0 * n_steps)
        = Inr (map (batch_at (reshaped arr n_seqs n_steps) n_steps)
                  [0..<length arr div (n_seqs * n_steps)])"
    by (rule batches_loop_eq [OF reshaped_wf [OF q] s reshaped_shape(2)]) simp
  then show ?thesis
    unfolding get_batches_def Let_def reshape_truncated [OF q]
    using q s by simp
qed

lemma reshaped_nth:
  assumes i: "i < n_seqs" and j: "j < length arr div (n_seqs * n_steps) * n_steps"
  shows "rows (reshaped arr n_seqs n_steps) ! i ! j
         = arr ! (i * (length arr div (n_seqs * n_steps) * n_steps) + j)"
    and "i * (length arr div (n_seqs * n_steps) * n_steps) + j
          < length arr div (n_seqs * n_steps) * (n_seqs * n_steps)"
proof -
  let ?nb = "length arr div (n_seqs * n_steps)"
  let ?c = "?nb * n_steps"
  have "Suc i \<le> n_seqs" using i by simp
  then have "Suc i * ?c \<le> n_seqs * ?c" by (rule mult_le_mono1)
  then have b: "i * ?c + j < n_seqs * ?c" using j by simp
  then show b': "i * ?c + j < ?nb * (n_seqs * n_steps)"
    by (simp add: mult.assoc mult.left_commute)
  have le: "?nb * (n_seqs * n_steps) \<le> length arr" by simp
  have "rows (reshaped arr n_seqs n_steps) ! i
        = take ?c (drop (i * ?c) (take (?nb * (n_seqs * n_steps)) arr))"
    using i by (simp add: reshaped_def Let_def)
  moreover have lt: "length (take (?nb * (n_seqs * n_steps)) arr) = ?nb * (n_seqs * n_steps)"
    using le by simp
  moreover have "i * ?c \<le> length (take (?nb * (n_seqs * n_steps)) arr)"
    unfolding lt using b' by linarith
  ultimately show "rows (reshaped arr n_seqs n_steps) ! i ! j = arr ! (i * ?c + j)"
    using j b' by (simp add: nth_drop del: length_take)
qed




lemma batch_at_wf:
  assumes wf: "wf2 arr" and s: "0 < s" and fit: "k * s + s \<le> shape1 arr"
  shows "wf2 (fst (batch_at arr s k))" "shape0 (fst (batch_at arr s k)) = shape0 arr"
        "shape1 (fst (batch_at arr s k)) = s"
        "wf2 (snd (batch_at arr s k))" "shape0 (snd (batch_at arr s k)) = shape0 arr"
        "shape1 (snd (batch_at arr s k)) = s"
proof -
  have len: "length (rows arr) = shape0 arr" and rl: "\<And>r. r \<in> set (rows arr) \<Longrightarrow> length r = shape1 arr"
    using wf by (auto simp: wf2_def list_all_iff)
  show "shape0 (fst (batch_at arr s k)) = shape0 arr" "shape1 (fst (batch_at arr s k)) = s"
       "shape0 (snd (batch_at arr s k)) = shape0 arr" "shape1 (snd (batch_at arr s k)) = s"
    using fit by (simp_all add: batch_at_def slice_cols_def min_def)
  show "wf2 (fst (batch_at arr s k))"
    using len rl fit by (auto simp: batch_at_def slice_cols_def wf2_def list_all_iff min_def)
  show "wf2 (snd (batch_at arr s k))"
    using len rl fit s by (auto simp: batch_at_def wf2_def list_all_iff target_row_def min_def)
qed

lemma batch_at_shift:
  assumes wf: "wf2 arr" and s: "0 < s" and fit: "k * s + s \<le> shape1 arr"
  shows "slice_cols (snd (batch_at arr s k)) 0 (shape1 (snd (batch_at arr s k)) - 1)
         = slice_cols (fst (batch_at arr s k)) 1 (shape1 (fst (batch_at arr s k)))"
proof -
  have rl: "\<And>r. r \<in> set (rows arr) \<Longrightarrow> length r = shape1 arr"
    using wf by (auto simp: wf2_def list_all_iff)
  have row: "\<And>r. r \<in> set (rows arr) \<Longrightarrow>
        take (s - 1) (target_row (k * s) s w r) = take (s - 1) (drop 1 (take s (drop (k * s) r)))" for w
  proof -
    fix r assume "r \<in> set (rows arr)"
    then have lr: "length r = shape1 arr" by (rule rl)
    obtain t where t: "s = Suc t" using s by (cases s) auto
    have "length (take t (drop (Suc (k * s)) r)) = t" using lr fit t by simp
    then show "take (s - 1) (target_row (k * s) s w r) = take (s - 1) (drop 1 (take s (drop (k * s) r)))"
      unfolding target_row_def t by (simp add: drop_take)
  qed
  show ?thesis
    unfolding batch_at_wf(3,6) [OF wf s fit]
    using s fit row by (simp add: batch_at_def slice_cols_def min_def del: One_nat_def)
qed

lemma batch_at_last_col:
  assumes wf: "wf2 arr" and s: "0 < s" and fit: "k * s + s \<le> shape1 arr"
  shows "get_col (snd (batch_at arr s k)) (shape1 (snd (batch_at arr s k)) - 1)
         = get_col arr (if k * s + s < shape1 arr then k * s + s else 0)"
proof -
  have rl: "\<And>r. r \<in> set (rows arr) \<Longrightarrow> length r = shape1 arr"
    using wf by (auto simp: wf2_def list_all_iff)
  have row: "\<And>r. r \<in> set (rows arr) \<Longrightarrow> target_row (k * s) s w r ! (s - 1) = r ! w" for w
  proof -
    fix r assume "r \<in> set (rows arr)"
    then have lr: "length r = shape1 arr" by (rule rl)
    obtain t where t: "s = Suc t" using s by (cases s) auto
    have "length (take t (drop (Suc (k * s)) r)) = t" using lr fit t by simp
    then show "target_row (k * s) s w r ! (s - 1) = r ! w"
      unfolding target_row_def t by (simp add: nth_append)
  qed
  have pos: "0 < shape1 arr" using s fit by simp
  show ?thesis
    unfolding batch_at_wf(6) [OF wf s fit]
    using s pos row by (simp add: batch_at_def get_col_def)
qed

lemma batch_at_first_col:
  assumes wf: "wf2 arr" and s: "0 < s" and fit: "k * s + s \<le> shape1 arr"
  shows "get_col (fst (batch_at arr s k)) 0 = get_col arr (k * s)"
proof -
  have rl: "\<And>r. r \<in> set (rows arr) \<Longrightarrow> length r = shape1 arr"
    using wf by (auto simp: wf2_def list_all_iff)
  have lt: "k * s < shape1 arr" using s fit by simp
  have "\<And>r. r \<in> set (rows arr) \<Longrightarrow> take s (drop (k * s) r) ! 0 = r ! (k * s)"
    using rl lt s by simp
  then show ?thesis
    unfolding get_col_def batch_at_wf(3) [OF wf s fit]
    using s lt by (simp add: batch_at_def slice_cols_def)
qed


text \<open>
  Claim C9. A corpus shorter than one batch (\<open>length arr < n_seqs * n_steps\<close>, both
  parameters at least one) yields no batch and raises nothing: the truncation is the empty
  array, its reshape to \<open>(n_seqs, 0)\<close> succeeds, and \<open>get_batches\<close> returns the empty
  list of batches.
\<close>

theorem get_batches_short_corpus:
  assumes "1 \<le> n_seqs" and "1 \<le> n_steps" and "length arr < n_seqs * n_steps"
  shows "take (length arr div (n_seqs * n_steps) * (n_seqs * n_steps)) arr = []
       \<and> reshape_rows ([]::int list) n_seqs
           = Inr \<lparr>shape0 = n_seqs, shape1 = 0, rows = replicate n_seqs []\<rparr>
       \<and> get_batches arr n_seqs n_steps = Inr []"
proof -
  have q: "0 < n_seqs" and s: "0 < n_steps" using assms by simp_all
  have nb: "length arr div (n_seqs * n_steps) = 0" using assms(3) by simp
  have "reshape_rows ([]::int list) n_seqs
           = Inr \<lparr>shape0 = n_seqs, shape1 = 0, rows = replicate n_seqs []\<rparr>"
    using q by (simp add: reshape_rows_def map_replicate_const)
  moreover have "get_batches arr n_seqs n_steps = Inr []"
    unfolding get_batches_eq [OF q s] nb by simp
  ultimately show ?thesis using nb by simp
qed

theorem get_batches_short_corpus_witness:
  "get_batches [5, 6, 7] 2 2 = Inr []
   \<and> reshape_rows ([]::int list) 2 = Inr \<lparr>shape0 = 2, shape1 = 0, rows = [[], []]\<rparr>"
  using get_batches_short_corpus [of 2 2 "[5, 6, 7]"] by (simp add: numeral_2_eq_2)

text \<open>
  Claim C2. For \<open>n_seqs, n_steps \<ge> 1\<close>, \<open>get_batches\<close> yields exactly
  \<open>length arr div (n_seqs * n_steps)\<close> batches. The input \<open>x\<close> of batch \<open>k\<close> is the column
  slice \<open>[k * n_steps, k * n_steps + n_steps)\<close> of the corpus truncated to whole batches and
  reshaped into \<open>n_seqs\<close> rows; it has shape \<open>(n_seqs, n_steps)\<close>, and its entry \<open>(i, j)\<close> is
  the corpus element at a position below the truncation point. The batches are the same
  for every corpus that agrees with \<open>arr\<close> up to the truncation point and has as many whole
  batches: what lies beyond never reaches a batch.
\<close>

theorem get_batches_inputs:
  assumes "1 \<le> n_seqs" and "1 \<le> n_steps"
  shows "\<exists>bs R.
          get_batches arr n_seqs n_steps = Inr bs
        \<and> length bs = length arr div (n_seqs * n_steps)
        \<and> reshape_rows (take (length bs * (n_seqs * n_steps)) arr) n_seqs = Inr R
        \<and> shape0 R = n_seqs \<and> shape1 R = length bs * n_steps
        \<and> (\<forall>k < length bs.
              fst (bs ! k) = slice_cols R (k * n_steps) (k * n_steps + n_steps)
            \<and> wf2 (fst (bs ! k))
            \<and> shape0 (fst (bs ! k)) = n_seqs
            \<and> shape1 (fst (bs ! k)) = n_steps
            \<and> (\<forall>i < n_seqs. \<forall>j < n_steps.
                   i * (length bs * n_steps) + k * n_steps + j < length bs * (n_seqs * n_steps)
                 \<and> rows (fst (bs ! k)) ! i ! j
                     = arr ! (i * (length bs * n_steps) + k * n_steps + j)))
        \<and> (\<forall>arr'. length arr' div (n_seqs * n_steps) = length bs
                  \<and> take (length bs * (n_seqs * n_steps)) arr'
                      = take (length bs * (n_seqs * n_steps)) arr
               \<longrightarrow> get_batches arr' n_seqs n_steps = Inr bs)"
proof -
  have q: "0 < n_seqs" and s: "0 < n_steps" using assms by simp_all
  let ?nb = "length arr div (n_seqs * n_steps)"
  let ?R = "reshaped arr n_seqs n_steps"
  let ?bs = "map (batch_at ?R n_steps) [0..<?nb]"
  have wf: "wf2 ?R" by (rule reshaped_wf [OF q])
  have sh1: "shape1 ?R = ?nb * n_steps" by (rule reshaped_shape)
  have sh0: "shape0 ?R = n_seqs" by (rule reshaped_shape)
  have len: "length ?bs = ?nb" by simp
  have fit: "k * n_steps + n_steps \<le> shape1 ?R" if "k < ?nb" for k
  proof -
    from that have "Suc k \<le> ?nb" by simp
    then have "Suc k * n_steps \<le> ?nb * n_steps" by (rule mult_le_mono1)
    then show ?thesis unfolding sh1 by (simp add: add.commute)
  qed
  have elems: "i * (?nb * n_steps) + k * n_steps + j < ?nb * (n_seqs * n_steps)
             \<and> rows (fst (batch_at ?R n_steps k)) ! i ! j = arr ! (i * (?nb * n_steps) + k * n_steps + j)"
    if k: "k < ?nb" and i: "i < n_seqs" and j: "j < n_steps" for k i j
  proof -
    have c: "k * n_steps + j < ?nb * n_steps" using fit [OF k] j unfolding sh1 by simp
    have lr: "length (rows ?R ! i) = shape1 ?R"
      using wf i sh0 by (simp add: wf2_def list_all_length)
    have kle: "k * n_steps \<le> length (rows ?R ! i)" unfolding lr sh1 using c by linarith
    have li: "i < length (rows ?R)" using wf i sh0 by (simp add: wf2_def)
    have "rows (fst (batch_at ?R n_steps k)) ! i ! j = rows ?R ! i ! (k * n_steps + j)"
      using li j kle by (simp add: batch_at_def slice_cols_def nth_drop)
    then show ?thesis
      using reshaped_nth [OF i c] by (simp add: add.assoc)
  qed
  have indep: "get_batches arr' n_seqs n_steps = Inr ?bs"
    if "length arr' div (n_seqs * n_steps) = ?nb"
       "take (?nb * (n_seqs * n_steps)) arr' = take (?nb * (n_seqs * n_steps)) arr" for arr'
  proof -
    have "reshaped arr' n_seqs n_steps = ?R" using that by (simp add: reshaped_def Let_def)
    then show ?thesis unfolding get_batches_eq [OF q s] using that(1) by simp
  qed
  show ?thesis
  proof (intro exI conjI)
    show "get_batches arr n_seqs n_steps = Inr ?bs" by (rule get_batches_eq [OF q s])
    show "length ?bs = ?nb" by simp
    show "reshape_rows (take (length ?bs * (n_seqs * n_steps)) arr) n_seqs = Inr ?R"
      unfolding len by (rule reshape_truncated [OF q])
    show "shape0 ?R = n_seqs" by (rule sh0)
    show "shape1 ?R = length ?bs * n_steps" unfolding len by (rule sh1)
    show "\<forall>k < length ?bs.
              fst (?bs ! k) = slice_cols ?R (k * n_steps) (k * n_steps + n_steps)
            \<and> wf2 (fst (?bs ! k))
            \<and> shape0 (fst (?bs ! k)) = n_seqs
            \<and> shape1 (fst (?bs ! k)) = n_steps
            \<and> (\<forall>i < n_seqs. \<forall>j < n_steps.
                   i * (length ?bs * n_steps) + k * n_steps + j < length ?bs * (n_seqs * n_steps)
                 \<and> rows (fst (?bs ! k)) ! i ! j
                     = arr ! (i * (length ?bs * n_steps) + k * n_steps + j))"
      unfolding len
    proof (intro allI impI)
      fix k assume k: "k < ?nb"
      have nth: "?bs ! k = batch_at ?R n_steps k" using k by simp
      show "fst (?bs ! k) = slice_cols ?R (k * n_steps) (k * n_steps + n_steps)
            \<and> wf2 (fst (?bs ! k))
            \<and> shape0 (fst (?bs ! k)) = n_seqs
            \<and> shape1 (fst (?bs ! k)) = n_steps
            \<and> (\<forall>i < n_seqs. \<forall>j < n_steps.
                   i * (?nb * n_steps) + k * n_steps + j < ?nb * (n_seqs * n_steps)
                 \<and> rows (fst (?bs ! k)) ! i ! j
                     = arr ! (i * (?nb * n_steps) + k * n_steps + j))"
        unfolding nth
        using batch_at_wf(1,2,3) [OF wf s fit [OF k]] sh0 elems [OF k]
        by (simp add: batch_at_def)
    qed
    show "\<forall>arr'. length arr' div (n_seqs * n_steps) = length ?bs
                  \<and> take (length ?bs * (n_seqs * n_steps)) arr'
                      = take (length ?bs * (n_seqs * n_steps)) arr
               \<longrightarrow> get_batches arr' n_seqs n_steps = Inr ?bs"
      unfolding len using indep by blast
  qed
qed


theorem get_batches_inputs_witness:
  "\<exists>bs R. get_batches [10, 11, 12, 13, 14, 15, 16, 17, 18, 19, 20] 2 2 = Inr bs
      \<and> length bs = 2
      \<and> reshape_rows [10, 11, 12, 13, 14, 15, 16, 17] 2 = Inr R
      \<and> fst (bs ! 1) = slice_cols R 2 4
      \<and> shape0 (fst (bs ! 1)) = 2 \<and> shape1 (fst (bs ! 1)) = 2
      \<and> rows (fst (bs ! 1)) ! 1 ! 0 = 16"
proof -
  let ?arr = "[10, 11, 12, 13, 14, 15, 16, 17, 18, 19, 20] :: int list"
  have h: "(1::nat) \<le> 2" by simp
  from get_batches_inputs [OF h h, of ?arr] obtain bs R where
        g: "get_batches ?arr 2 2 = Inr bs"
    and l: "length bs = length ?arr div (2 * 2)"
    and r: "reshape_rows (take (length bs * (2 * 2)) ?arr) 2 = Inr R"
    and a: "\<forall>k < length bs.
              fst (bs ! k) = slice_cols R (k * 2) (k * 2 + 2)
            \<and> wf2 (fst (bs ! k))
            \<and> shape0 (fst (bs ! k)) = 2
            \<and> shape1 (fst (bs ! k)) = 2
            \<and> (\<forall>i < 2. \<forall>j < 2.
                   i * (length bs * 2) + k * 2 + j < length bs * (2 * 2)
                 \<and> rows (fst (bs ! k)) ! i ! j
                     = ?arr ! (i * (length bs * 2) + k * 2 + j))"
    by blast
  have l2: "length bs = 2" using l by simp
  have k1: "(1::nat) < length bs" using l2 by simp
  have i1: "(1::nat) < 2" and j0: "(0::nat) < 2" by simp_all
  from a k1 have b: "fst (bs ! 1) = slice_cols R (1 * 2) (1 * 2 + 2)"
      "shape0 (fst (bs ! 1)) = 2" "shape1 (fst (bs ! 1)) = 2"
      "\<forall>i < 2. \<forall>j < 2. rows (fst (bs ! 1)) ! i ! j = ?arr ! (i * (length bs * 2) + 1 * 2 + j)"
    by blast+
  from b(4) i1 j0 have "rows (fst (bs ! 1)) ! 1 ! 0 = ?arr ! (1 * (length bs * 2) + 1 * 2 + 0)"
    by blast
  then have c: "rows (fst (bs ! 1)) ! 1 ! 0 = 16" unfolding l2 by simp
  have r': "reshape_rows [10, 11, 12, 13, 14, 15, 16, 17] 2 = Inr R"
    using r unfolding l2 by simp
  show ?thesis using g l2 r' b(1,2,3) c by (intro exI [of _ bs] exI [of _ R]) simp
qed

text \<open>
  Claim C1. For \<open>n_seqs, n_steps \<ge> 1\<close> and every batch \<open>(x, y)\<close> at offset \<open>n = k * n_steps\<close>:
  \<^verbatim>\<open>y[:, :-1]\<close> equals \<^verbatim>\<open>x[:, 1:]\<close>; the \<^verbatim>\<open>try\<close> block ends in IndexError exactly for
  the last batch, which is exactly when \<open>n + n_steps\<close> is the row length; for every other
  batch the \<^verbatim>\<open>try\<close> block produces \<open>y\<close> and \<^verbatim>\<open>y[:, -1]\<close> is the leading column of the next
  batch's input; for the last batch the handler produces \<open>y\<close> and \<^verbatim>\<open>y[:, -1]\<close> is column
  \<open>0\<close> of the reshaped corpus.
\<close>

theorem get_batches_targets:
  assumes "1 \<le> n_seqs" and "1 \<le> n_steps"
  shows "\<exists>bs R.
        get_batches arr n_seqs n_steps = Inr bs
      \<and> length bs = length arr div (n_seqs * n_steps)
      \<and> reshape_rows (take (length arr div (n_seqs * n_steps) * (n_seqs * n_steps)) arr) n_seqs
          = Inr R
      \<and> (\<forall>k < length bs.
            wf2 (snd (bs ! k))
          \<and> shape0 (snd (bs ! k)) = n_seqs
          \<and> shape1 (snd (bs ! k)) = n_steps
          \<and> slice_cols (snd (bs ! k)) 0 (shape1 (snd (bs ! k)) - 1)
              = slice_cols (fst (bs ! k)) 1 (shape1 (fst (bs ! k)))
          \<and> (try_targets R (fst (bs ! k)) (k * n_steps) n_steps = Inl IndexError
               \<longleftrightarrow> Suc k = length bs)
          \<and> (Suc k = length bs \<longleftrightarrow> k * n_steps + n_steps = shape1 R)
          \<and> (Suc k < length bs \<longrightarrow>
                try_targets R (fst (bs ! k)) (k * n_steps) n_steps = Inr (snd (bs ! k))
              \<and> get_col (snd (bs ! k)) (shape1 (snd (bs ! k)) - 1)
                  = get_col (fst (bs ! Suc k)) 0)
          \<and> (Suc k = length bs \<longrightarrow>
                except_targets R (fst (bs ! k)) = Inr (snd (bs ! k))
              \<and> get_col (snd (bs ! k)) (shape1 (snd (bs ! k)) - 1) = get_col R 0))"
proof -
  have q: "0 < n_seqs" and s: "0 < n_steps" using assms by simp_all
  let ?nb = "length arr div (n_seqs * n_steps)"
  let ?R = "reshaped arr n_seqs n_steps"
  let ?bs = "map (batch_at ?R n_steps) [0..<?nb]"
  have wf: "wf2 ?R" by (rule reshaped_wf [OF q])
  have sh1: "shape1 ?R = ?nb * n_steps" by (rule reshaped_shape)
  have sh0: "shape0 ?R = n_seqs" by (rule reshaped_shape)
  have len: "length ?bs = ?nb" by simp
  have fit: "k * n_steps + n_steps \<le> shape1 ?R" if "k < ?nb" for k
  proof -
    from that have "Suc k \<le> ?nb" by simp
    then have "Suc k * n_steps \<le> ?nb * n_steps" by (rule mult_le_mono1)
    then show ?thesis unfolding sh1 by (simp add: add.commute)
  qed
  have last_iff: "Suc k = ?nb \<longleftrightarrow> k * n_steps + n_steps = shape1 ?R" for k
  proof -
    have "k * n_steps + n_steps = Suc k * n_steps" by simp
    then show ?thesis unfolding sh1 using s by (metis mult_cancel2 less_not_refl)
  qed
  have inner: "try_targets ?R (fst (batch_at ?R n_steps k)) (k * n_steps) n_steps
                  = Inr (snd (batch_at ?R n_steps k))
             \<and> get_col (snd (batch_at ?R n_steps k)) (shape1 (snd (batch_at ?R n_steps k)) - 1)
                  = get_col (fst (batch_at ?R n_steps (Suc k))) 0"
    if k: "Suc k < ?nb" for k
  proof -
    have k': "k < ?nb" using k by simp
    have "Suc k * n_steps < ?nb * n_steps" by (rule mult_less_mono1 [OF k s])
    then have lt: "k * n_steps + n_steps < shape1 ?R" unfolding sh1 by (simp add: add.commute)
    have "try_targets ?R (fst (batch_at ?R n_steps k)) (k * n_steps) n_steps
                  = Inr (snd (batch_at ?R n_steps k))"
      using try_targets_inner [OF wf s lt] lt by (simp add: batch_at_def)
    moreover have "get_col (snd (batch_at ?R n_steps k)) (shape1 (snd (batch_at ?R n_steps k)) - 1)
                  = get_col (fst (batch_at ?R n_steps (Suc k))) 0"
      unfolding batch_at_last_col [OF wf s fit [OF k']] batch_at_first_col [OF wf s fit [OF k]]
      using lt by (simp add: add.commute)
    ultimately show ?thesis by simp
  qed
  have final: "try_targets ?R (fst (batch_at ?R n_steps k)) (k * n_steps) n_steps = Inl IndexError
             \<and> except_targets ?R (fst (batch_at ?R n_steps k)) = Inr (snd (batch_at ?R n_steps k))
             \<and> get_col (snd (batch_at ?R n_steps k)) (shape1 (snd (batch_at ?R n_steps k)) - 1)
                  = get_col ?R 0"
    if k: "Suc k = ?nb" for k
  proof -
    have k': "k < ?nb" using k by simp
    have e: "k * n_steps + n_steps = shape1 ?R" using k last_iff by blast
    have "except_targets ?R (fst (batch_at ?R n_steps k)) = Inr (snd (batch_at ?R n_steps k))"
      using except_targets_eq [OF wf s fit [OF k']] e by (simp add: batch_at_def)
    moreover have "get_col (snd (batch_at ?R n_steps k)) (shape1 (snd (batch_at ?R n_steps k)) - 1)
                  = get_col ?R 0"
      unfolding batch_at_last_col [OF wf s fit [OF k']] using e by simp
    ultimately show ?thesis using try_targets_last [OF e] by simp
  qed
  have each: "wf2 (snd (?bs ! k))
          \<and> shape0 (snd (?bs ! k)) = n_seqs
          \<and> shape1 (snd (?bs ! k)) = n_steps
          \<and> slice_cols (snd (?bs ! k)) 0 (shape1 (snd (?bs ! k)) - 1)
              = slice_cols (fst (?bs ! k)) 1 (shape1 (fst (?bs ! k)))
          \<and> (try_targets ?R (fst (?bs ! k)) (k * n_steps) n_steps = Inl IndexError
               \<longleftrightarrow> Suc k = ?nb)
          \<and> (Suc k = ?nb \<longleftrightarrow> k * n_steps + n_steps = shape1 ?R)
          \<and> (Suc k < ?nb \<longrightarrow>
                try_targets ?R (fst (?bs ! k)) (k * n_steps) n_steps = Inr (snd (?bs ! k))
              \<and> get_col (snd (?bs ! k)) (shape1 (snd (?bs ! k)) - 1)
                  = get_col (fst (?bs ! Suc k)) 0)
          \<and> (Suc k = ?nb \<longrightarrow>
                except_targets ?R (fst (?bs ! k)) = Inr (snd (?bs ! k))
              \<and> get_col (snd (?bs ! k)) (shape1 (snd (?bs ! k)) - 1) = get_col ?R 0)"
    if k: "k < ?nb" for k
  proof -
    have nth: "?bs ! k = batch_at ?R n_steps k" using k by simp
    have nthS: "Suc k < ?nb \<Longrightarrow> ?bs ! Suc k = batch_at ?R n_steps (Suc k)" by simp
    have cases: "Suc k < ?nb \<or> Suc k = ?nb" using k by linarith
    have iff: "try_targets ?R (fst (batch_at ?R n_steps k)) (k * n_steps) n_steps = Inl IndexError
               \<longleftrightarrow> Suc k = ?nb"
      using cases inner [of k] final [of k] by auto
    show ?thesis
      unfolding nth
      using batch_at_wf(4,5,6) [OF wf s fit [OF k]] batch_at_shift [OF wf s fit [OF k]]
            iff last_iff [of k] inner [of k] final [of k] nthS sh0
      by simp
  qed
  show ?thesis
  proof (intro exI conjI)
    show "get_batches arr n_seqs n_steps = Inr ?bs" by (rule get_batches_eq [OF q s])
    show "length ?bs = ?nb" by (rule len)
    show "reshape_rows (take (?nb * (n_seqs * n_steps)) arr) n_seqs = Inr ?R"
      by (rule reshape_truncated [OF q])
    show "\<forall>k < length ?bs.
            wf2 (snd (?bs ! k))
          \<and> shape0 (snd (?bs ! k)) = n_seqs
          \<and> shape1 (snd (?bs ! k)) = n_steps
          \<and> slice_cols (snd (?bs ! k)) 0 (shape1 (snd (?bs ! k)) - 1)
              = slice_cols (fst (?bs ! k)) 1 (shape1 (fst (?bs ! k)))
          \<and> (try_targets ?R (fst (?bs ! k)) (k * n_steps) n_steps = Inl IndexError
               \<longleftrightarrow> Suc k = length ?bs)
          \<and> (Suc k = length ?bs \<longleftrightarrow> k * n_steps + n_steps = shape1 ?R)
          \<and> (Suc k < length ?bs \<longrightarrow>
                try_targets ?R (fst (?bs ! k)) (k * n_steps) n_steps = Inr (snd (?bs ! k))
              \<and> get_col (snd (?bs ! k)) (shape1 (snd (?bs ! k)) - 1)
                  = get_col (fst (?bs ! Suc k)) 0)
          \<and> (Suc k = length ?bs \<longrightarrow>
                except_targets ?R (fst (?bs ! k)) = Inr (snd (?bs ! k))
              \<and> get_col (snd (?bs ! k)) (shape1 (snd (?bs ! k)) - 1) = get_col ?R 0)"
      unfolding len using each by blast
  qed
qed


theorem get_batches_targets_witness:
  "\<exists>bs R. get_batches [10, 11, 12, 13, 14, 15, 16, 17, 18, 19, 20] 2 2 = Inr bs
      \<and> reshape_rows [10, 11, 12, 13, 14, 15, 16, 17] 2 = Inr R
      \<and> length bs = 2
      \<and> try_targets R (fst (bs ! 0)) 0 2 = Inr (snd (bs ! 0))
      \<and> get_col (snd (bs ! 0)) 1 = get_col (fst (bs ! 1)) 0
      \<and> try_targets R (fst (bs ! 1)) 2 2 = Inl IndexError
      \<and> except_targets R (fst (bs ! 1)) = Inr (snd (bs ! 1))
      \<and> get_col (snd (bs ! 1)) 1 = get_col R 0
      \<and> get_col R 0 = Inr [10, 14]"
proof -
  let ?arr = "[10, 11, 12, 13, 14, 15, 16, 17, 18, 19, 20] :: int list"
  have h: "(1::nat) \<le> 2" by simp
  from get_batches_targets [OF h h, of ?arr] obtain bs R where
        g: "get_batches ?arr 2 2 = Inr bs"
    and l: "length bs = length ?arr div (2 * 2)"
    and r: "reshape_rows (take (length ?arr div (2 * 2) * (2 * 2)) ?arr) 2 = Inr R"
    and a: "\<forall>k < length bs.
            wf2 (snd (bs ! k))
          \<and> shape0 (snd (bs ! k)) = 2
          \<and> shape1 (snd (bs ! k)) = 2
          \<and> slice_cols (snd (bs ! k)) 0 (shape1 (snd (bs ! k)) - 1)
              = slice_cols (fst (bs ! k)) 1 (shape1 (fst (bs ! k)))
          \<and> (try_targets R (fst (bs ! k)) (k * 2) 2 = Inl IndexError
               \<longleftrightarrow> Suc k = length bs)
          \<and> (Suc k = length bs \<longleftrightarrow> k * 2 + 2 = shape1 R)
          \<and> (Suc k < length bs \<longrightarrow>
                try_targets R (fst (bs ! k)) (k * 2) 2 = Inr (snd (bs ! k))
              \<and> get_col (snd (bs ! k)) (shape1 (snd (bs ! k)) - 1)
                  = get_col (fst (bs ! Suc k)) 0)
          \<and> (Suc k = length bs \<longrightarrow>
                except_targets R (fst (bs ! k)) = Inr (snd (bs ! k))
              \<and> get_col (snd (bs ! k)) (shape1 (snd (bs ! k)) - 1) = get_col R 0)"
    by blast
  have l2: "length bs = 2" using l by simp
  have r': "reshape_rows [10, 11, 12, 13, 14, 15, 16, 17] 2 = Inr R" using r by simp
  have ev: "reshape_rows [10, 11, 12, 13, 14, 15, 16, 17 :: int] 2
            = Inr \<lparr>shape0 = 2, shape1 = 4, rows = [[10, 11, 12, 13], [14, 15, 16, 17]]\<rparr>"
    by code_simp
  have R: "R = \<lparr>shape0 = 2, shape1 = 4, rows = [[10, 11, 12, 13], [14, 15, 16, 17]]\<rparr>"
    using r' ev by simp
  have c0: "get_col R 0 = Inr [10, 14]" unfolding R by (simp add: get_col_def)
  have k0: "(0::nat) < length bs" and k1: "(1::nat) < length bs" using l2 by simp_all
  from a k0 have b0: "shape1 (snd (bs ! 0)) = 2"
     "Suc 0 < length bs \<longrightarrow>
                try_targets R (fst (bs ! 0)) (0 * 2) 2 = Inr (snd (bs ! 0))
              \<and> get_col (snd (bs ! 0)) (shape1 (snd (bs ! 0)) - 1)
                  = get_col (fst (bs ! Suc 0)) 0"
    by blast+
  from a k1 have b1: "shape1 (snd (bs ! 1)) = 2"
     "try_targets R (fst (bs ! 1)) (1 * 2) 2 = Inl IndexError \<longleftrightarrow> Suc 1 = length bs"
     "Suc 1 = length bs \<longrightarrow>
                except_targets R (fst (bs ! 1)) = Inr (snd (bs ! 1))
              \<and> get_col (snd (bs ! 1)) (shape1 (snd (bs ! 1)) - 1) = get_col R 0"
    by blast+
  have d0: "try_targets R (fst (bs ! 0)) 0 2 = Inr (snd (bs ! 0))"
           "get_col (snd (bs ! 0)) 1 = get_col (fst (bs ! 1)) 0"
    using b0 l2 by simp_all
  have d1: "try_targets R (fst (bs ! 1)) 2 2 = Inl IndexError"
           "except_targets R (fst (bs ! 1)) = Inr (snd (bs ! 1))"
           "get_col (snd (bs ! 1)) 1 = get_col R 0"
    using b1 l2 by simp_all
  show ?thesis using g r' l2 d0 d1 c0 by (intro exI [of _ bs] exI [of _ R]) simp
qed

section \<open>Properties of the one-hot encoder\<close>


lemma concat_uniform_chunk:
  assumes "\<forall>r \<in> set xss. length r = n" and "p < length xss"
  shows "take n (drop (p * n) (concat xss)) = xss ! p"
  using assms
proof (induction xss arbitrary: p)
  case Nil
  then show ?case by simp
next
  case (Cons xs xss)
  show ?case
  proof (cases p)
    case 0
    then show ?thesis using Cons.prems by simp
  next
    case (Suc q)
    have "drop (p * n) (xs @ concat xss) = drop (q * n) (concat xss)"
      using Cons.prems Suc by simp
    then show ?thesis using Cons.IH [of q] Cons.prems Suc by simp
  qed
qed

lemma concat_uniform_length:
  assumes "\<forall>r \<in> set xss. length r = n"
  shows "length (concat xss) = length xss * n"
  using assms by (induction xss) auto

lemma concat_uniform_nth:
  assumes u: "\<forall>r \<in> set xss. length r = n" and p: "p < length xss" and j: "j < n"
  shows "concat xss ! (p * n + j) = xss ! p ! j"
proof -
  have "Suc p \<le> length xss" using p by simp
  then have "Suc p * n \<le> length xss * n" by (rule mult_le_mono1)
  then have "p * n + n \<le> length xss * n" by (simp add: add.commute)
  then have le: "p * n \<le> length (concat xss)"
    unfolding concat_uniform_length [OF u] by linarith
  have "xss ! p ! j = take n (drop (p * n) (concat xss)) ! j"
    unfolding concat_uniform_chunk [OF u p] ..
  also have "\<dots> = concat xss ! (p * n + j)" using j le by (simp add: nth_drop)
  finally show ?thesis by simp
qed


lemma set_points_zip:
  assumes "length (rows A) = shape0 A" and "m + length js = shape0 A"
      and "\<forall>j \<in> set js. 0 \<le> j \<and> j < int (shape1 A)"
  shows "set_points A (zip [m..<m + length js] js) v
         = Inr (A\<lparr>rows := take m (rows A) @ map2 (\<lambda>r j. r[nat j := v]) (drop m (rows A)) js\<rparr>)"
  using assms
proof (induction js arbitrary: m A)
  case Nil
  then show ?case by simp
next
  case (Cons j js)
  let ?A = "A\<lparr>rows := (rows A)[m := (rows A ! m)[nat j := v]]\<rparr>"
  have m: "m < length (rows A)" using Cons.prems by simp
  have j: "0 \<le> j" "j < int (shape1 A)" using Cons.prems by simp_all
  have up: "[m..<m + length (j # js)] = m # [Suc m..<Suc m + length js]"
  proof -
    have "[m..<m + length (j # js)] = m # [Suc m..<m + length (j # js)]"
      by (rule upt_conv_Cons) simp
    moreover have "m + length (j # js) = Suc m + length js" by simp
    ultimately show ?thesis by (simp only:)
  qed
  have IH: "set_points ?A (zip [Suc m..<Suc m + length js] js) v
         = Inr (?A\<lparr>rows := take (Suc m) (rows ?A)
                  @ map2 (\<lambda>r j. r[nat j := v]) (drop (Suc m) (rows ?A)) js\<rparr>)"
    using Cons.prems by (intro Cons.IH) simp_all
  have t: "take (Suc m) (rows ?A) = take m (rows A) @ [(rows A ! m)[nat j := v]]"
    using m by (simp add: take_Suc_conv_app_nth)
  have d: "drop m (rows A) = rows A ! m # drop (Suc m) (rows A)"
    using m by (simp add: Cons_nth_drop_Suc)
  show ?case
    unfolding up using m j Cons.prems(1,2) IH t d by simp
qed

lemma one_hot_rows:
  assumes wf: "wf2 arr"
      and rng: "\<forall>r \<in> set (rows arr). \<forall>v \<in> set r. 0 \<le> v \<and> v < int n_labels"
  shows "fancy_assign (zeros2 (shape0 arr * shape1 arr) n_labels)
            (arange (shape0 (zeros2 (shape0 arr * shape1 arr) n_labels))) (flatten arr) 1
         = Inr \<lparr>shape0 = shape0 arr * shape1 arr, shape1 = n_labels,
                rows = map (\<lambda>v. (replicate n_labels 0)[nat v := 1]) (flatten arr)\<rparr>"
proof -
  have u: "\<forall>r \<in> set (rows arr). length r = shape1 arr" and l: "length (rows arr) = shape0 arr"
    using wf by (simp_all add: wf2_def list_all_iff)
  have len: "length (flatten arr) = shape0 arr * shape1 arr"
    unfolding flatten_def concat_uniform_length [OF u] l ..
  have rng': "\<forall>j \<in> set (flatten arr). 0 \<le> j \<and> j < int (shape1 (zeros2 (shape0 arr * shape1 arr) n_labels))"
    using rng by (auto simp: flatten_def zeros2_def)
  have "set_points (zeros2 (shape0 arr * shape1 arr) n_labels)
           (zip [0..<0 + length (flatten arr)] (flatten arr)) (1::real)
        = Inr ((zeros2 (shape0 arr * shape1 arr) n_labels)
            \<lparr>rows := take 0 (rows (zeros2 (shape0 arr * shape1 arr) n_labels))
               @ map2 (\<lambda>r j. r[nat j := 1])
                   (drop 0 (rows (zeros2 (shape0 arr * shape1 arr) n_labels))) (flatten arr)\<rparr>)"
    by (rule set_points_zip [OF _ _ rng']) (simp_all add: zeros2_def len)
  then show ?thesis
    unfolding fancy_assign_def arange_def
    using len by (simp add: zeros2_def map2_replicate_map [where g = "\<lambda>x. x", simplified])
qed


lemma one_hot_vector:
  assumes "0 \<le> v" and "v < int n"
  shows "length ((replicate n (0::real))[nat v := 1]) = n"
    and "k < n \<Longrightarrow> (replicate n (0::real))[nat v := 1] ! k = (if v = int k then 1 else 0)"
    and "filter (\<lambda>b. b \<noteq> 0) ((replicate n (0::real))[nat v := 1]) = [1]"
    and "(replicate n (0::real))[nat v := 1] ! nat v = 1"
proof -
  have a: "nat v < n" using assms by simp
  show "length ((replicate n (0::real))[nat v := 1]) = n" by simp
  show "(replicate n (0::real))[nat v := 1] ! nat v = 1" using a by simp
  show "filter (\<lambda>b. b \<noteq> 0) ((replicate n (0::real))[nat v := 1]) = [1]"
    using a by (simp add: upd_conv_take_nth_drop)
  show "k < n \<Longrightarrow> (replicate n (0::real))[nat v := 1] ! k = (if v = int k then 1 else 0)"
    using assms by (auto simp: nth_list_update)
qed

lemma one_hot_encode_eq:
  assumes wf: "wf2 arr"
      and rng: "\<forall>r \<in> set (rows arr). \<forall>v \<in> set r. 0 \<le> v \<and> v < int n_labels"
  shows "one_hot_encode arr n_labels
         = Inr \<lparr>dim0 = shape0 arr, dim1 = shape1 arr, dim2 = n_labels,
                planes = map (\<lambda>i. map (\<lambda>j. (replicate n_labels 0)[nat (rows arr ! i ! j) := 1])
                                  [0..<shape1 arr]) [0..<shape0 arr]\<rparr>"
proof -
  let ?oh = "\<lambda>v. (replicate n_labels (0::real))[nat v := 1]"
  let ?B = "\<lparr>shape0 = shape0 arr * shape1 arr, shape1 = n_labels,
                rows = map ?oh (flatten arr)\<rparr>"
  have u: "\<forall>r \<in> set (rows arr). length r = shape1 arr" and l: "length (rows arr) = shape0 arr"
    using wf by (simp_all add: wf2_def list_all_iff)
  have len: "length (flatten arr) = shape0 arr * shape1 arr"
    unfolding flatten_def concat_uniform_length [OF u] l ..
  have uB: "\<forall>r \<in> set (map ?oh (flatten arr)). length r = n_labels" by simp
  have cell: "take n_labels (drop ((i * shape1 arr + j) * n_labels) (flatten ?B))
              = ?oh (rows arr ! i ! j)"
    if i: "i < shape0 arr" and j: "j < shape1 arr" for i j
  proof -
    have "Suc i \<le> shape0 arr" using i by simp
    then have "Suc i * shape1 arr \<le> shape0 arr * shape1 arr" by (rule mult_le_mono1)
    then have p: "i * shape1 arr + j < length (map ?oh (flatten arr))"
      using j len by simp
    have "take n_labels (drop ((i * shape1 arr + j) * n_labels) (concat (map ?oh (flatten arr))))
          = map ?oh (flatten arr) ! (i * shape1 arr + j)"
      by (rule concat_uniform_chunk [OF uB p])
    also have "\<dots> = ?oh (flatten arr ! (i * shape1 arr + j))" using p by simp
    also have "flatten arr ! (i * shape1 arr + j) = rows arr ! i ! j"
      unfolding flatten_def using concat_uniform_nth [OF u _ j, of i] i l by simp
    finally show ?thesis by (simp add: flatten_def)
  qed
  have "reshape3 ?B (shape0 arr) (shape1 arr) n_labels
        = Inr \<lparr>dim0 = shape0 arr, dim1 = shape1 arr, dim2 = n_labels,
                planes = map (\<lambda>i. map (\<lambda>j. ?oh (rows arr ! i ! j)) [0..<shape1 arr]) [0..<shape0 arr]\<rparr>"
    unfolding reshape3_def using cell by simp
  then show ?thesis
    unfolding one_hot_encode_def Let_def one_hot_rows [OF wf rng] by simp
qed

text \<open>
  Claim C4. For a two-dimensional integer array \<open>arr\<close> with every entry in
  \<open>[0, n_labels)\<close>, \<open>one_hot_encode arr n_labels\<close> returns an array of shape
  \<open>arr.shape + (n_labels,)\<close> whose entry \<open>(i, j, k)\<close> is \<open>1\<close> if \<open>arr[i][j] = k\<close> and \<open>0\<close>
  otherwise; every innermost vector has exactly one non-zero entry, a \<open>1\<close> at the position
  \<open>arr[i][j]\<close>.
\<close>

theorem one_hot_encode_correct:
  assumes "wf2 arr"
      and "\<forall>r \<in> set (rows arr). \<forall>v \<in> set r. 0 \<le> v \<and> v < int n_labels"
  shows "\<exists>R. one_hot_encode arr n_labels = Inr R
     \<and> dim0 R = shape0 arr \<and> dim1 R = shape1 arr \<and> dim2 R = n_labels
     \<and> length (planes R) = shape0 arr
     \<and> (\<forall>i < shape0 arr. length (planes R ! i) = shape1 arr
          \<and> (\<forall>j < shape1 arr. length (planes R ! i ! j) = n_labels
               \<and> (\<forall>k < n_labels. planes R ! i ! j ! k = (if rows arr ! i ! j = int k then 1 else 0))
               \<and> filter (\<lambda>b. b \<noteq> 0) (planes R ! i ! j) = [1]
               \<and> planes R ! i ! j ! nat (rows arr ! i ! j) = 1))"
proof -
  let ?oh = "\<lambda>v. (replicate n_labels (0::real))[nat v := 1]"
  let ?R = "\<lparr>dim0 = shape0 arr, dim1 = shape1 arr, dim2 = n_labels,
                planes = map (\<lambda>i. map (\<lambda>j. ?oh (rows arr ! i ! j)) [0..<shape1 arr]) [0..<shape0 arr]\<rparr>"
  have u: "\<forall>r \<in> set (rows arr). length r = shape1 arr" and l: "length (rows arr) = shape0 arr"
    using assms(1) by (simp_all add: wf2_def list_all_iff)
  have v: "0 \<le> rows arr ! i ! j \<and> rows arr ! i ! j < int n_labels"
    if "i < shape0 arr" "j < shape1 arr" for i j
  proof -
    have "rows arr ! i \<in> set (rows arr)" using that l by simp
    moreover from this have "rows arr ! i ! j \<in> set (rows arr ! i)" using that u by simp
    ultimately show ?thesis using assms(2) by blast
  qed
  have "\<forall>i < shape0 arr. length (planes ?R ! i) = shape1 arr
          \<and> (\<forall>j < shape1 arr. length (planes ?R ! i ! j) = n_labels
               \<and> (\<forall>k < n_labels. planes ?R ! i ! j ! k = (if rows arr ! i ! j = int k then 1 else 0))
               \<and> filter (\<lambda>b. b \<noteq> 0) (planes ?R ! i ! j) = [1]
               \<and> planes ?R ! i ! j ! nat (rows arr ! i ! j) = 1)"
  proof (intro allI impI conjI)
    fix i assume i: "i < shape0 arr"
    show "length (planes ?R ! i) = shape1 arr" using i by simp
    fix j assume j: "j < shape1 arr"
    have pij: "planes ?R ! i ! j = ?oh (rows arr ! i ! j)" using i j by simp
    note vv = v [OF i j]
    show "length (planes ?R ! i ! j) = n_labels" unfolding pij by simp
    show "filter (\<lambda>b. b \<noteq> 0) (planes ?R ! i ! j) = [1]"
      unfolding pij using vv by (intro one_hot_vector(3)) simp_all
    show "planes ?R ! i ! j ! nat (rows arr ! i ! j) = 1"
      unfolding pij using vv by (intro one_hot_vector(4)) simp_all
    fix k assume k: "k < n_labels"
    show "planes ?R ! i ! j ! k = (if rows arr ! i ! j = int k then 1 else 0)"
      unfolding pij using vv k by (intro one_hot_vector(2)) simp_all
  qed
  then show ?thesis
    using one_hot_encode_eq [OF assms] by (intro exI [of _ ?R]) simp
qed

theorem one_hot_encode_correct_witness:
  "\<exists>R. one_hot_encode \<lparr>shape0 = 2, shape1 = 2, rows = [[0, 2], [1, 1]]\<rparr> 3 = Inr R
      \<and> dim0 R = 2 \<and> dim1 R = 2 \<and> dim2 R = 3
      \<and> planes R ! 0 ! 1 ! 2 = 1 \<and> planes R ! 0 ! 1 ! 0 = 0
      \<and> filter (\<lambda>b. b \<noteq> 0) (planes R ! 1 ! 0) = [1]"
proof -
  let ?arr = "\<lparr>shape0 = 2, shape1 = 2, rows = [[0, 2], [1, 1 :: int]]\<rparr>"
  have wf: "wf2 ?arr" by (simp add: wf2_def)
  have rng: "\<forall>r \<in> set (rows ?arr). \<forall>v \<in> set r. 0 \<le> v \<and> v < int 3" by simp
  from one_hot_encode_correct [OF wf rng] obtain R where
        e: "one_hot_encode ?arr 3 = Inr R"
    and d: "dim0 R = shape0 ?arr" "dim1 R = shape1 ?arr" "dim2 R = 3"
    and a: "\<forall>i < shape0 ?arr. length (planes R ! i) = shape1 ?arr
          \<and> (\<forall>j < shape1 ?arr. length (planes R ! i ! j) = 3
               \<and> (\<forall>k < 3. planes R ! i ! j ! k = (if rows ?arr ! i ! j = int k then 1 else 0))
               \<and> filter (\<lambda>b. b \<noteq> 0) (planes R ! i ! j) = [1]
               \<and> planes R ! i ! j ! nat (rows ?arr ! i ! j) = 1)"
    by blast
  have i0: "(0::nat) < shape0 ?arr" and i1: "(1::nat) < shape0 ?arr"
   and j0: "(0::nat) < shape1 ?arr" and j1: "(1::nat) < shape1 ?arr" by simp_all
  have k0: "(0::nat) < 3" and k2: "(2::nat) < 3" by simp_all
  from a i0 j1 have b: "\<forall>k < 3. planes R ! 0 ! 1 ! k = (if rows ?arr ! 0 ! 1 = int k then 1 else 0)"
    by blast
  from b k2 have c2: "planes R ! 0 ! 1 ! 2 = (if rows ?arr ! 0 ! 1 = int 2 then 1 else 0)" by blast
  from b k0 have c0: "planes R ! 0 ! 1 ! 0 = (if rows ?arr ! 0 ! 1 = int 0 then 1 else 0)" by blast
  from a i1 j0 have f: "filter (\<lambda>b. b \<noteq> 0) (planes R ! 1 ! 0) = [1]" by blast
  show ?thesis using e d c2 c0 f by (intro exI [of _ R]) simp
qed


section \<open>Properties of the vocabulary\<close>


lemma dict_fold_distinct:
  "distinct (map fst (d @ ps)) \<Longrightarrow> fold (\<lambda>(k, v) d. dict_set d k v) ps d = d @ ps"
proof (induction ps arbitrary: d)
  case Nil
  then show ?case by simp
next
  case (Cons p ps)
  obtain k v where p: "p = (k, v)" by (cases p)
  have "k \<notin> fst ` set d" using Cons.prems p by auto
  then have "dict_set d k v = d @ [(k, v)]" by (simp add: dict_set_def)
  moreover have "distinct (map fst ((d @ [(k, v)]) @ ps))" using Cons.prems p by simp
  ultimately show ?case using Cons.IH [of "d @ [(k, v)]"] p by simp
qed

lemma dict_of_distinct: "distinct (map fst ps) \<Longrightarrow> dict_of ps = ps"
  using dict_fold_distinct [of "[]" ps] by (simp add: dict_of_def)

lemma int2char_of_eq: "int2char_of toks = zip [0..<length toks] toks"
  unfolding int2char_of_def py_enumerate_def by (rule dict_of_distinct) simp

lemma swap_zip: "length xs = length ys \<Longrightarrow> map (\<lambda>(i, c). (c, i)) (zip xs ys) = zip ys xs"
  by (induction xs ys rule: list_induct2) auto

lemma char2int_of_eq:
  assumes "distinct toks"
  shows "char2int_of toks = zip toks [0..<length toks]"
proof -
  have "map (\<lambda>(ii, ch). (ch, ii)) (zip [0..<length toks] toks) = zip toks [0..<length toks]"
    by (rule swap_zip) simp
  moreover have "dict_of (zip toks [0..<length toks]) = zip toks [0..<length toks]"
    by (rule dict_of_distinct) (simp add: assms)
  ultimately show ?thesis unfolding char2int_of_def int2char_of_eq by simp
qed

lemma vocab_bijection_zip:
  assumes d: "distinct toks"
  shows "vocab_bijection (zip [0..<length toks] toks) (zip toks [0..<length toks]) (set toks)"
proof -
  let ?n = "length toks"
  have card: "card (set toks) = ?n" using d by (rule distinct_card)
  have i2c: "map_of (zip [0..<?n] toks) i = Some (toks ! i)" if "i < ?n" for i
    using map_of_zip_nth [of "[0..<?n]" toks i] that by simp
  have c2i: "map_of (zip toks [0..<?n]) (toks ! i) = Some i" if "i < ?n" for i
    using map_of_zip_nth [of toks "[0..<?n]" i] that d by simp
  have dom1: "dom (map_of (zip [0..<?n] toks)) = {0..<?n}" by (simp add: dom_map_of_zip)
  have dom2: "dom (map_of (zip toks [0..<?n])) = set toks" by (simp add: dom_map_of_zip)
  have bij: "bij_betw (\<lambda>c. the (map_of (zip toks [0..<?n]) c)) (set toks) {0..<?n}"
  proof (rule bij_betw_byWitness [where f' = "\<lambda>i. toks ! i"])
    show "\<forall>a \<in> set toks. toks ! the (map_of (zip toks [0..<?n]) a) = a"
      using c2i by (auto simp: in_set_conv_nth)
    show "\<forall>a' \<in> {0..<?n}. the (map_of (zip toks [0..<?n]) (toks ! a')) = a'"
      using c2i by simp
    show "(\<lambda>c. the (map_of (zip toks [0..<?n]) c)) ` set toks \<subseteq> {0..<?n}"
      using c2i by (auto simp: in_set_conv_nth)
    show "(\<lambda>i. toks ! i) ` {0..<?n} \<subseteq> set toks" by auto
  qed
  have g1: "dict_get (zip [0..<?n] toks) i = Inr (toks ! i)" if "i < ?n" for i
    unfolding dict_get_def i2c [OF that] by simp
  have g2: "dict_get (zip toks [0..<?n]) (toks ! i) = Inr i" if "i < ?n" for i
    unfolding dict_get_def c2i [OF that] by simp
  have fwd: "\<forall>i < ?n. \<exists>c. dict_get (zip [0..<?n] toks) i = Inr c
                         \<and> dict_get (zip toks [0..<?n]) c = Inr i"
    using g1 g2 by blast
  have bwd: "\<forall>c \<in> set toks. \<exists>i. dict_get (zip toks [0..<?n]) c = Inr i
                         \<and> dict_get (zip [0..<?n] toks) i = Inr c"
  proof
    fix c assume "c \<in> set toks"
    then obtain i where "i < ?n" "toks ! i = c" by (auto simp: in_set_conv_nth)
    then show "\<exists>i. dict_get (zip toks [0..<?n]) c = Inr i
                         \<and> dict_get (zip [0..<?n] toks) i = Inr c"
      using g1 [of i] g2 [of i] by blast
  qed
  show ?thesis
    unfolding vocab_bijection_def card using dom1 dom2 bij fwd bwd by blast
qed

text \<open>
  Claim C5. The vocabulary built from a text is a bijection between the distinct symbols
  of the text and the indices \<open>0..V-1\<close>, \<open>V\<close> the number of distinct symbols, and its two
  dicts are inverse to each other in both directions: for the torch notebook
  (\<open>int2char\<close>, \<open>char2int\<close>) whatever the iteration order of \<^verbatim>\<open>set(text)\<close>, and for the
  Keras notebooks (\<open>indices_char\<close>, \<open>char_indices\<close>) over the sorted symbols.
\<close>

theorem vocabulary_bijection:
  "(is_set_order toks text \<longrightarrow>
       vocab_bijection (int2char_of toks) (char2int_of toks) (set text))
   \<and> vocab_bijection (indices_char text) (char_indices text) (set text)"
proof
  show "is_set_order toks text \<longrightarrow>
       vocab_bijection (int2char_of toks) (char2int_of toks) (set text)"
  proof
    assume "is_set_order toks text"
    then have d: "distinct toks" and s: "set toks = set text"
      by (simp_all add: is_set_order_def)
    show "vocab_bijection (int2char_of toks) (char2int_of toks) (set text)"
      unfolding int2char_of_eq char2int_of_eq [OF d] s [symmetric]
      by (rule vocab_bijection_zip [OF d])
  qed
next
  let ?cs = "sorted_chars text"
  have d: "distinct ?cs" and s: "set ?cs = set text" by (simp_all add: sorted_chars_def)
  have a: "indices_char text = zip [0..<length ?cs] ?cs"
  proof -
    have "map (\<lambda>(i, c). (i, c)) (py_enumerate ?cs) = zip [0..<length ?cs] ?cs"
      by (simp add: py_enumerate_def)
    then show ?thesis unfolding indices_char_def by (simp add: dict_of_distinct)
  qed
  have b: "char_indices text = zip ?cs [0..<length ?cs]"
  proof -
    have "map (\<lambda>(i, c). (c, i)) (py_enumerate ?cs) = zip ?cs [0..<length ?cs]"
      unfolding py_enumerate_def by (rule swap_zip) simp
    then show ?thesis unfolding char_indices_def using d by (simp add: dict_of_distinct)
  qed
  show "vocab_bijection (indices_char text) (char_indices text) (set text)"
    unfolding a b s [symmetric] by (rule vocab_bijection_zip [OF d])
qed

theorem vocabulary_bijection_witness:
  "is_set_order ''ohel'' ''hello''
   \<and> vocab_bijection (int2char_of ''ohel'') (char2int_of ''ohel'') (set ''hello'')
   \<and> vocab_bijection (indices_char ''hello'') (char_indices ''hello'') (set ''hello'')
   \<and> int2char_of ''ohel'' = [(0, CHR ''o''), (1, CHR ''h''), (2, CHR ''e''), (3, CHR ''l'')]
   \<and> char2int_of ''ohel'' = [(CHR ''o'', 0), (CHR ''h'', 1), (CHR ''e'', 2), (CHR ''l'', 3)]
   \<and> indices_char ''hello'' = [(0, CHR ''e''), (1, CHR ''h''), (2, CHR ''l''), (3, CHR ''o'')]
   \<and> char_indices ''hello'' = [(CHR ''e'', 0), (CHR ''h'', 1), (CHR ''l'', 2), (CHR ''o'', 3)]"
proof -
  have o: "is_set_order ''ohel'' ''hello''" by (auto simp: is_set_order_def)
  have e1: "int2char_of ''ohel'' = [(0, CHR ''o''), (1, CHR ''h''), (2, CHR ''e''), (3, CHR ''l'')]"
    by code_simp
  have e2: "char2int_of ''ohel'' = [(CHR ''o'', 0), (CHR ''h'', 1), (CHR ''e'', 2), (CHR ''l'', 3)]"
    by code_simp
  have e3: "indices_char ''hello'' = [(0, CHR ''e''), (1, CHR ''h''), (2, CHR ''l''), (3, CHR ''o'')]"
    by code_simp
  have e4: "char_indices ''hello'' = [(CHR ''e'', 0), (CHR ''h'', 1), (CHR ''l'', 2), (CHR ''o'', 3)]"
    by code_simp
  show ?thesis
    using vocabulary_bijection [of "''ohel''" "''hello''"] o e1 e2 e3 e4 by simp
qed


section \<open>Properties of the vectorization\<close>


lemma cut_from_props:
  "length (snd (cut_from corpus m st i)) = length (fst (cut_from corpus m st i))
   \<and> (\<forall>s \<in> set (fst (cut_from corpus m st i)). length s = m \<and> set s \<subseteq> set corpus)
   \<and> set (snd (cut_from corpus m st i)) \<subseteq> set corpus"
proof (induction corpus m st i rule: cut_from.induct)
  case (1 corpus m st i)
  show ?case
  proof (cases "st = 0 \<or> \<not> i + m < length corpus")
    case True
    then show ?thesis by (simp add: cut_from.simps [of corpus m st i])
  next
    case False
    then have lt: "i + m < length corpus" by simp
    obtain ss nc where r: "cut_from corpus m st (i + st) = (ss, nc)" by (cases "cut_from corpus m st (i + st)")
    have e: "cut_from corpus m st i = (take m (drop i corpus) # ss, corpus ! (i + m) # nc)"
      using False r by (simp add: cut_from.simps [of corpus m st i])
    have IH: "length nc = length ss \<and> (\<forall>s \<in> set ss. length s = m \<and> set s \<subseteq> set corpus)
              \<and> set nc \<subseteq> set corpus"
      using "1.IH" [OF False] r by simp
    have "set (take m (drop i corpus)) \<subseteq> set corpus"
      by (meson set_take_subset set_drop_subset subset_trans)
    moreover have "length (take m (drop i corpus)) = m" using lt by simp
    moreover have "corpus ! (i + m) \<in> set corpus" using lt by simp
    ultimately show ?thesis unfolding e using IH by simp
  qed
qed

lemma cut_from_nth:
  "j < length (fst (cut_from corpus m st i)) \<Longrightarrow>
     fst (cut_from corpus m st i) ! j = take m (drop (i + j * st) corpus)
   \<and> i + j * st + m < length corpus
   \<and> snd (cut_from corpus m st i) ! j = corpus ! (i + j * st + m)"
proof (induction corpus m st i arbitrary: j rule: cut_from.induct)
  case (1 corpus m st i)
  show ?case
  proof (cases "st = 0 \<or> \<not> i + m < length corpus")
    case True
    then show ?thesis using "1.prems" by (simp add: cut_from.simps [of corpus m st i])
  next
    case False
    then have lt: "i + m < length corpus" by simp
    obtain ss nc where r: "cut_from corpus m st (i + st) = (ss, nc)" by (cases "cut_from corpus m st (i + st)")
    have e: "cut_from corpus m st i = (take m (drop i corpus) # ss, corpus ! (i + m) # nc)"
      using False r by (simp add: cut_from.simps [of corpus m st i])
    show ?thesis
    proof (cases j)
      case 0
      then show ?thesis unfolding e using lt by simp
    next
      case (Suc j')
      then have "j' < length (fst (cut_from corpus m st (i + st)))"
        using "1.prems" e r by simp
      from "1.IH" [OF False this] show ?thesis
        unfolding e using Suc r by (simp add: add.assoc add.commute add.left_commute)
    qed
  qed
qed

lemma fill_sentence_zip:
  assumes "i < dim0 x" and "length (planes x) = dim0 x"
      and "t0 + length cs = dim1 x" and "length (planes x ! i) = dim1 x"
      and "\<forall>ch \<in> set cs. \<exists>k. map_of ci ch = Some k \<and> k < dim2 x"
  shows "fill_sentence x ci i (zip [t0..<t0 + length cs] cs)
         = Inr (x\<lparr>planes := (planes x)
                  [i := take t0 (planes x ! i)
                        @ map2 (\<lambda>row ch. row[the (map_of ci ch) := True])
                            (drop t0 (planes x ! i)) cs]\<rparr>)"
  using assms
proof (induction cs arbitrary: t0 x)
  case Nil
  then show ?case by (simp add: list_update_same_conv)
next
  case (Cons ch cs)
  let ?P = "planes x ! i"
  obtain k where k: "map_of ci ch = Some k" "k < dim2 x" using Cons.prems(5) by auto
  have t0: "t0 < dim1 x" using Cons.prems(3) by simp
  have i: "i < length (planes x)" using Cons.prems(1,2) by simp
  let ?x = "x\<lparr>planes := (planes x)[i := ?P[t0 := (?P ! t0)[k := True]]]\<rparr>"
  have up: "[t0..<t0 + length (ch # cs)] = t0 # [Suc t0..<Suc t0 + length cs]"
  proof -
    have "[t0..<t0 + length (ch # cs)] = t0 # [Suc t0..<t0 + length (ch # cs)]"
      by (rule upt_conv_Cons) simp
    moreover have "t0 + length (ch # cs) = Suc t0 + length cs" by simp
    ultimately show ?thesis by (simp only:)
  qed
  have Pi: "planes ?x ! i = ?P[t0 := (?P ! t0)[k := True]]" using i by simp
  have IH: "fill_sentence ?x ci i (zip [Suc t0..<Suc t0 + length cs] cs)
         = Inr (?x\<lparr>planes := (planes ?x)
                  [i := take (Suc t0) (planes ?x ! i)
                        @ map2 (\<lambda>row ch. row[the (map_of ci ch) := True])
                            (drop (Suc t0) (planes ?x ! i)) cs]\<rparr>)"
    using Cons.prems i by (intro Cons.IH) simp_all
  have t: "take (Suc t0) (?P[t0 := (?P ! t0)[k := True]]) = take t0 ?P @ [(?P ! t0)[k := True]]"
    using t0 Cons.prems(4) by (simp add: take_Suc_conv_app_nth)
  have d: "drop t0 ?P = ?P ! t0 # drop (Suc t0) ?P"
    using t0 Cons.prems(4) by (simp add: Cons_nth_drop_Suc)
  show ?case
    unfolding up using k t0 Cons.prems(1) IH
    unfolding Pi t d
    by (simp add: dict_get_def set3_def)
qed


lemma vectorize_loop_zip:
  assumes "length (planes x) = dim0 x"
      and "i0 + length ss = dim0 x"
      and "\<forall>j. i0 \<le> j \<and> j < dim0 x \<longrightarrow> length (planes x ! j) = dim1 x"
      and "\<forall>s \<in> set ss. length s = dim1 x
              \<and> (\<forall>ch \<in> set s. \<exists>k. map_of ci ch = Some k \<and> k < dim2 x)"
      and "shape0 y = dim0 x" and "dim0 x \<le> length nc"
      and "\<forall>c \<in> set nc. \<exists>k. map_of ci c = Some k \<and> k < shape1 y"
  shows "vectorize_loop x y ci nc (zip [i0..<i0 + length ss] ss)
         = Inr (x\<lparr>planes := take i0 (planes x)
                    @ map2 (\<lambda>P s. map2 (\<lambda>row ch. row[the (map_of ci ch) := True]) P s)
                        (drop i0 (planes x)) ss\<rparr>, y)"
  using assms
proof (induction ss arbitrary: i0 x)
  case Nil
  then show ?case by simp
next
  case (Cons s ss)
  let ?f = "\<lambda>row ch. row[the (map_of ci ch) := True]"
  let ?F = "\<lambda>P s. map2 ?f P s"
  let ?P = "planes x ! i0"
  let ?x = "x\<lparr>planes := (planes x)[i0 := ?F ?P s]\<rparr>"
  have i0: "i0 < dim0 x" using Cons.prems(2) by simp
  have li: "i0 < length (planes x)" using i0 Cons.prems(1) by simp
  have lP: "length ?P = dim1 x" using Cons.prems(3) i0 by simp
  have ls: "length s = dim1 x" using Cons.prems(4) by simp
  have cs: "\<forall>ch \<in> set s. \<exists>k. map_of ci ch = Some k \<and> k < dim2 x" using Cons.prems(4) by simp
  have "fill_sentence x ci i0 (zip [0..<0 + length s] s)
         = Inr (x\<lparr>planes := (planes x)[i0 := take 0 ?P @ ?F (drop 0 ?P) s]\<rparr>)"
    by (rule fill_sentence_zip [OF i0 Cons.prems(1) _ lP cs]) (simp add: ls)
  then have fs: "fill_sentence x ci i0 (py_enumerate s) = Inr ?x"
    by (simp add: py_enumerate_def)
  have "nc ! i0 \<in> set nc" using i0 Cons.prems(6) by simp
  then obtain k where k: "map_of ci (nc ! i0) = Some k" "k < shape1 y"
    using Cons.prems(7) by blast
  have lg: "list_get nc i0 = Inr (nc ! i0)" using i0 Cons.prems(6) by (simp add: list_get_def)
  have dg: "dict_get ci (nc ! i0) = Inr k" using k by (simp add: dict_get_def)
  have g2: "get2 y i0 k = Inr (rows y ! i0 ! k)" using k i0 Cons.prems(5) by (simp add: get2_def)
  have up: "[i0..<i0 + length (s # ss)] = i0 # [Suc i0..<Suc i0 + length ss]"
  proof -
    have "[i0..<i0 + length (s # ss)] = i0 # [Suc i0..<i0 + length (s # ss)]"
      by (rule upt_conv_Cons) simp
    moreover have "i0 + length (s # ss) = Suc i0 + length ss" by simp
    ultimately show ?thesis by (simp only:)
  qed
  have IH: "vectorize_loop ?x y ci nc (zip [Suc i0..<Suc i0 + length ss] ss)
         = Inr (?x\<lparr>planes := take (Suc i0) (planes ?x)
                     @ map2 ?F (drop (Suc i0) (planes ?x)) ss\<rparr>, y)"
    using Cons.prems li by (intro Cons.IH) simp_all
  have t: "take (Suc i0) (planes ?x) = take i0 (planes x) @ [?F ?P s]"
    using li by (simp add: take_Suc_conv_app_nth)
  have d: "drop i0 (planes x) = ?P # drop (Suc i0) (planes x)"
    using li by (simp add: Cons_nth_drop_Suc)
  have d': "drop (Suc i0) (planes ?x) = drop (Suc i0) (planes x)" by simp
  show ?case
    unfolding up using IH unfolding t d d'
    by (simp add: fs lg dg g2)
qed


lemma char_indices_eq:
  "char_indices corpus = zip (sorted_chars corpus) [0..<length (sorted_chars corpus)]"
proof -
  let ?cs = "sorted_chars corpus"
  have d: "distinct ?cs" by (simp add: sorted_chars_def)
  have "map (\<lambda>(i, c). (c, i)) (py_enumerate ?cs) = zip ?cs [0..<length ?cs]"
    unfolding py_enumerate_def by (rule swap_zip) simp
  then show ?thesis unfolding char_indices_def using d by (simp add: dict_of_distinct)
qed

lemma char_indices_total:
  assumes "ch \<in> set corpus"
  shows "\<exists>k. map_of (char_indices corpus) ch = Some k \<and> k < length (sorted_chars corpus)"
proof -
  let ?cs = "sorted_chars corpus"
  have d: "distinct ?cs" and s: "set ?cs = set corpus" by (simp_all add: sorted_chars_def)
  from assms s have "ch \<in> set ?cs" by simp
  then obtain k where k: "k < length ?cs" "?cs ! k = ch"
    unfolding in_set_conv_nth by blast
  have "map_of (zip ?cs [0..<length ?cs]) (?cs ! k) = Some ([0..<length ?cs] ! k)"
    by (rule map_of_zip_nth) (simp_all add: d k)
  then show ?thesis unfolding char_indices_eq using k by auto
qed

lemma one_hot_bool_nth:
  assumes "map_of ci ch = Some a" and "a < V" and "k < V"
  shows "(replicate V False)[the (map_of ci ch) := True] ! k = (dict_get ci ch = Inr k)"
  using assms by (auto simp: dict_get_def nth_list_update)

text \<open>
  Claim C10. In the unnamed Keras notebook the target array \<open>y\<close> is still all zero after
  the vectorization loop, for every corpus and every sentence: the last statement of the
  loop body reads \<^verbatim>\<open>y[i, char_indices[next_chars[i]]]\<close> (the index exists and is in
  range) and assigns nothing. The same loop fills the input array \<open>x\<close> one-hot: entry
  \<open>(i, t, k)\<close> is set exactly when \<open>k\<close> is the index of the \<open>t\<close>-th symbol of sentence \<open>i\<close>.
  The statement holds for every sentence length and every positive step; the notebook
  uses \<open>max_len = 40\<close> and \<open>step = 3\<close>.
\<close>

theorem vectorize_targets_stay_zero:
  assumes "0 < st"
  shows "\<exists>sentences next_chars x y.
        cut_sentences text m st = Inr (sentences, next_chars)
      \<and> vectorize text m st = Inr (x, y)
      \<and> y = zeros2_bool (length sentences) (length (sorted_chars text))
      \<and> (\<forall>i < length sentences. \<forall>k < length (sorted_chars text). rows y ! i ! k = False)
      \<and> length next_chars = length sentences
      \<and> (\<forall>i < length sentences. \<exists>k < length (sorted_chars text).
             dict_get (char_indices text) (next_chars ! i) = Inr k)
      \<and> dim0 x = length sentences \<and> dim1 x = m \<and> dim2 x = length (sorted_chars text)
      \<and> (\<forall>i < length sentences.
             sentences ! i = take m (drop (i * st) text)
           \<and> length (sentences ! i) = m
           \<and> next_chars ! i = text ! (i * st + m)
           \<and> (\<forall>t < m. \<forall>k < length (sorted_chars text).
                 planes x ! i ! t ! k
                   = (dict_get (char_indices text) (sentences ! i ! t) = Inr k)))"
proof -
  let ?V = "length (sorted_chars text)"
  let ?ci = "char_indices text"
  let ?z = "replicate ?V False"
  let ?f = "\<lambda>row ch. row[the (map_of ?ci ch) := True]"
  obtain ss nc where cut: "cut_from text m st 0 = (ss, nc)" by (cases "cut_from text m st 0")
  have cs: "cut_sentences text m st = Inr (ss, nc)"
    using assms cut by (simp add: cut_sentences_def)
  have len: "length nc = length ss"
    and sent: "\<forall>s \<in> set ss. length s = m \<and> set s \<subseteq> set text"
    and nxt: "set nc \<subseteq> set text"
    using cut_from_props [of "text" m st 0] cut by simp_all
  have nth: "ss ! i = take m (drop (i * st) text) \<and> i * st + m < length text
             \<and> nc ! i = text ! (i * st + m)" if "i < length ss" for i
    using cut_from_nth [of i "text" m st 0] that cut by simp
  let ?x0 = "zeros3_bool (length ss) m ?V"
  let ?y0 = "zeros2_bool (length ss) ?V"
  let ?X = "?x0\<lparr>planes := take 0 (planes ?x0)
                    @ map2 (\<lambda>P s. map2 ?f P s) (drop 0 (planes ?x0)) ss\<rparr>"
  have loop: "vectorize_loop ?x0 ?y0 ?ci nc (zip [0..<0 + length ss] ss) = Inr (?X, ?y0)"
  proof (rule vectorize_loop_zip)
    show "length (planes ?x0) = dim0 ?x0" by (simp add: zeros3_bool_def)
    show "0 + length ss = dim0 ?x0" by (simp add: zeros3_bool_def)
    show "\<forall>j. 0 \<le> j \<and> j < dim0 ?x0 \<longrightarrow> length (planes ?x0 ! j) = dim1 ?x0"
      by (simp add: zeros3_bool_def)
    show "\<forall>s \<in> set ss. length s = dim1 ?x0
              \<and> (\<forall>ch \<in> set s. \<exists>k. map_of ?ci ch = Some k \<and> k < dim2 ?x0)"
      using sent char_indices_total [of _ "text"] by (auto simp: zeros3_bool_def)
    show "shape0 ?y0 = dim0 ?x0" by (simp add: zeros3_bool_def zeros2_bool_def)
    show "dim0 ?x0 \<le> length nc" using len by (simp add: zeros3_bool_def)
    show "\<forall>c \<in> set nc. \<exists>k. map_of ?ci c = Some k \<and> k < shape1 ?y0"
      using nxt char_indices_total [of _ "text"] by (auto simp: zeros2_bool_def)
  qed
  have vec: "vectorize text m st = Inr (?X, ?y0)"
    unfolding vectorize_def cs using loop by (simp add: py_enumerate_def Let_def)
  have planes: "planes ?X = map (\<lambda>s. map (?f ?z) s) ss"
  proof -
    have "map2 (\<lambda>P s. map2 ?f P s) (replicate (length ss) (replicate m ?z)) ss
          = map (\<lambda>s. map2 ?f (replicate m ?z) s) ss"
      using map2_replicate_map [of ss "length ss" "\<lambda>P s. map2 ?f P s" "replicate m ?z" "\<lambda>s. s"]
      by simp
    also have "\<dots> = map (\<lambda>s. map (?f ?z) s) ss"
    proof (rule map_cong [OF refl])
      fix s assume "s \<in> set ss"
      then have "length s = m" using sent by simp
      then show "map2 ?f (replicate m ?z) s = map (?f ?z) s"
        using map2_replicate_map [of s m ?f ?z "\<lambda>c. c"] by simp
    qed
    finally show ?thesis by (simp add: zeros3_bool_def)
  qed
  have xs: "planes ?X ! i ! t ! k = (dict_get ?ci (ss ! i ! t) = Inr k)"
    if i: "i < length ss" and t: "t < m" and k: "k < ?V" for i t k
  proof -
    have si: "ss ! i \<in> set ss" using i by simp
    then have ls: "length (ss ! i) = m" and sub: "set (ss ! i) \<subseteq> set text" using sent by simp_all
    have "ss ! i ! t \<in> set (ss ! i)" using t ls by simp
    then have "ss ! i ! t \<in> set text" using sub by blast
    then obtain a where a: "map_of ?ci (ss ! i ! t) = Some a" "a < ?V"
      using char_indices_total by blast
    have "planes ?X ! i ! t = ?f ?z (ss ! i ! t)" unfolding planes using i t ls by simp
    then show ?thesis using one_hot_bool_nth [OF a k] by simp
  qed
  have nk: "\<exists>k < ?V. dict_get ?ci (nc ! i) = Inr k" if i: "i < length ss" for i
  proof -
    have "nc ! i \<in> set text" using nxt i len by (simp add: subset_iff)
    then obtain k where "map_of ?ci (nc ! i) = Some k" "k < ?V"
      using char_indices_total by blast
    then show ?thesis by (auto simp: dict_get_def)
  qed
  have each: "\<forall>i < length ss.
             ss ! i = take m (drop (i * st) text)
           \<and> length (ss ! i) = m
           \<and> nc ! i = text ! (i * st + m)
           \<and> (\<forall>t < m. \<forall>k < ?V. planes ?X ! i ! t ! k = (dict_get ?ci (ss ! i ! t) = Inr k))"
  proof (intro allI impI conjI)
    fix i assume i: "i < length ss"
    show "ss ! i = take m (drop (i * st) text)" using nth [OF i] by blast
    show "nc ! i = text ! (i * st + m)" using nth [OF i] by blast
    have "ss ! i \<in> set ss" using i by simp
    then show "length (ss ! i) = m" using sent by blast
    fix t k assume "t < m" "k < ?V"
    then show "planes ?X ! i ! t ! k = (dict_get ?ci (ss ! i ! t) = Inr k)"
      by (rule xs [OF i])
  qed
  have yz: "\<forall>i < length ss. \<forall>k < ?V. rows ?y0 ! i ! k = False"
    by (simp add: zeros2_bool_def)
  have dims: "dim0 ?X = length ss" "dim1 ?X = m" "dim2 ?X = ?V"
    by (simp_all add: zeros3_bool_def)
  show ?thesis
    using cs vec len nk dims each yz
    by (intro exI [of _ ss] exI [of _ nc] exI [of _ ?X] exI [of _ ?y0]) blast
qed


theorem vectorize_targets_stay_zero_witness:
  "\<exists>x. vectorize ''abababababababababababababababababababababab'' max_len step
          = Inr (x, \<lparr>shape0 = 2, shape1 = 2, rows = [[False, False], [False, False]]\<rparr>)
      \<and> cut_sentences ''abababababababababababababababababababababab'' max_len step
          = Inr ([''abababababababababababababababababababab'', ''babababababababababababababababababababa''], ''ab'')
      \<and> dict_get (char_indices ''abababababababababababababababababababababab'') CHR ''a'' = Inr 0
      \<and> dict_get (char_indices ''abababababababababababababababababababababab'') CHR ''b'' = Inr 1
      \<and> dim0 x = 2 \<and> dim1 x = 40 \<and> dim2 x = 2
      \<and> planes x ! 1 ! 0 ! 1 = True \<and> planes x ! 1 ! 0 ! 0 = False"
proof -
  let ?T = "''abababababababababababababababababababababab''"
  have st: "0 < step" by (simp add: step_def)
  have c: "cut_sentences ?T max_len step = Inr ([''abababababababababababababababababababab'', ''babababababababababababababababababababa''], ''ab'')"
    unfolding max_len_def step_def by code_simp
  have v: "sorted_chars ?T = ''ab''" by code_simp
  have da: "dict_get (char_indices ?T) CHR ''a'' = Inr 0" by code_simp
  have db: "dict_get (char_indices ?T) CHR ''b'' = Inr 1" by code_simp
  from vectorize_targets_stay_zero [OF st, of ?T max_len] obtain ss nc x y where
        c': "cut_sentences ?T max_len step = Inr (ss, nc)"
    and e: "vectorize ?T max_len step = Inr (x, y)"
    and y: "y = zeros2_bool (length ss) (length (sorted_chars ?T))"
    and d: "dim0 x = length ss" "dim1 x = max_len" "dim2 x = length (sorted_chars ?T)"
    and a: "\<forall>i < length ss.
             ss ! i = take max_len (drop (i * step) ?T)
           \<and> length (ss ! i) = max_len
           \<and> nc ! i = ?T ! (i * step + max_len)
           \<and> (\<forall>t < max_len. \<forall>k < length (sorted_chars ?T).
                 planes x ! i ! t ! k
                   = (dict_get (char_indices ?T) (ss ! i ! t) = Inr k))"
    by blast
  have ss: "ss = [''abababababababababababababababababababab'', ''babababababababababababababababababababa'']"
    using c c' by simp
  have y': "y = \<lparr>shape0 = 2, shape1 = 2, rows = [[False, False], [False, False]]\<rparr>"
    unfolding y v ss by (simp add: zeros2_bool_def numeral_2_eq_2)
  have i1: "(1::nat) < length ss" unfolding ss by simp
  have t0: "(0::nat) < max_len" by (simp add: max_len_def)
  have k0: "(0::nat) < length (sorted_chars ?T)" and k1: "(1::nat) < length (sorted_chars ?T)"
    unfolding v by simp_all
  from a i1 have b: "\<forall>t < max_len. \<forall>k < length (sorted_chars ?T).
                 planes x ! 1 ! t ! k = (dict_get (char_indices ?T) (ss ! 1 ! t) = Inr k)"
    by blast
  have s10: "ss ! 1 ! 0 = CHR ''b''" unfolding ss by simp
  from b t0 k1 have p1: "planes x ! 1 ! 0 ! 1 = (dict_get (char_indices ?T) (ss ! 1 ! 0) = Inr 1)"
    by blast
  from b t0 k0 have p0: "planes x ! 1 ! 0 ! 0 = (dict_get (char_indices ?T) (ss ! 1 ! 0) = Inr 0)"
    by blast
  have q1: "planes x ! 1 ! 0 ! 1 = True" unfolding p1 s10 db by simp
  have q0: "planes x ! 1 ! 0 ! 0 = False" unfolding p0 s10 db by simp
  have dd: "dim0 x = 2" "dim1 x = 40" "dim2 x = 2"
    using d unfolding ss v by (simp_all add: max_len_def)
  show ?thesis
    using e c da db dd q1 q0 unfolding y' by (intro exI [of _ x]) simp
qed


section \<open>Properties of the sampler\<close>


lemma int2char_get:
  "dict_get (int2char net) i = Inr c \<Longrightarrow> i < length (chars net) \<and> c = chars net ! i"
proof -
  assume a: "dict_get (int2char net) i = Inr c"
  then have "map_of (zip [0..<length (chars net)] (chars net)) i = Some c"
    by (simp add: dict_get_def int2char_def int2char_of_eq split: option.splits)
  then have "(i, c) \<in> set (zip [0..<length (chars net)] (chars net))" by (rule map_of_SomeD)
  then show ?thesis by (auto simp: set_zip)
qed

lemma int2char_get_ok:
  assumes "i < length (chars net)"
  shows "dict_get (int2char net) i = Inr (chars net ! i)"
proof -
  have "map_of (zip [0..<length (chars net)] (chars net)) ([0..<length (chars net)] ! i)
        = Some (chars net ! i)"
    by (rule map_of_zip_nth) (simp_all add: assms)
  then show ?thesis using assms by (simp add: dict_get_def int2char_def int2char_of_eq)
qed

lemma char2int_get_ok:
  assumes "distinct (chars net)" and "ch \<in> set (chars net)"
  shows "\<exists>ix < length (chars net). dict_get (char2int net) ch = Inr ix"
proof -
  from assms(2) obtain ix where ix: "ix < length (chars net)" "chars net ! ix = ch"
    unfolding in_set_conv_nth by blast
  have "map_of (zip (chars net) [0..<length (chars net)]) (chars net ! ix)
        = Some ([0..<length (chars net)] ! ix)"
    by (rule map_of_zip_nth) (simp_all add: assms ix)
  then have "dict_get (char2int net) ch = Inr ix"
    using ix by (simp add: dict_get_def char2int_def char2int_of_eq [OF assms(1)])
  then show ?thesis using ix by blast
qed

lemma predict_in_vocab:
  assumes "predict net ch h top_k g = Inr (c, h', g')"
  shows "c \<in> set (chars net)"
proof -
  from assms obtain ix' where "dict_get (int2char net) ix' = Inr c"
    unfolding predict_def Let_def
    by (auto split: sum.splits prod.splits)
  then show ?thesis using int2char_get by fastforce
qed

lemma gen_loop_result:
  "gen_loop net top_k n cs h g = Inr s \<Longrightarrow>
     \<exists>gen. s = cs @ gen \<and> length gen = n \<and> set gen \<subseteq> set (chars net)"
proof (induction n arbitrary: cs h g)
  case 0
  then show ?case by simp
next
  case (Suc n)
  from Suc.prems obtain lst c h' g' where
        p: "predict net lst (Some h) top_k g = Inr (c, h', g')"
    and r: "gen_loop net top_k n (cs @ [c]) h' g' = Inr s"
    by (auto split: sum.splits prod.splits)
  from Suc.IH [OF r] obtain gen where
    gen: "s = (cs @ [c]) @ gen" "length gen = n" "set gen \<subseteq> set (chars net)" by blast
  have "c \<in> set (chars net)" using p by (rule predict_in_vocab)
  then show ?case using gen by (intro exI [of _ "c # gen"]) simp
qed

lemma prime_loop_result:
  "prime_loop net top_k co h g prime = Inr (r, h', g') \<Longrightarrow>
     (prime = [] \<and> r = co) \<or> (prime \<noteq> [] \<and> (\<exists>c. r = Some c \<and> c \<in> set (chars net)))"
proof (induction prime arbitrary: co h g)
  case Nil
  then show ?case by simp
next
  case (Cons ch rest)
  from Cons.prems obtain c h1 g1 where
        p: "predict net ch (Some h) top_k g = Inr (c, h1, g1)"
    and r: "prime_loop net top_k (Some c) h1 g1 rest = Inr (r, h', g')"
    by (auto split: sum.splits prod.splits)
  have "c \<in> set (chars net)" using p by (rule predict_in_vocab)
  then show ?case using Cons.IH [OF r] by auto
qed

lemma sample_result:
  assumes "sample net sz prime top_k g = Inr s"
  shows "prime \<noteq> [] \<and> (\<exists>gen. s = prime @ gen \<and> length gen = nat sz + 1
                               \<and> set gen \<subseteq> set (chars net))"
proof -
  from assms obtain c h g' where
        a: "prime_loop net top_k None (init_hidden net 1) g prime = Inr (Some c, h, g')"
    and b: "gen_loop net top_k (nat sz) (prime @ [c]) h g' = Inr s"
    unfolding sample_def by (auto split: sum.splits prod.splits option.splits)
  from prime_loop_result [OF a] have ne: "prime \<noteq> []" and c: "c \<in> set (chars net)" by auto
  from gen_loop_result [OF b] obtain gen where
    gen: "s = (prime @ [c]) @ gen" "length gen = nat sz" "set gen \<subseteq> set (chars net)" by blast
  show ?thesis using ne c gen by (intro conjI exI [of _ "c # gen"]) simp_all
qed


lemma cumsum_from_length: "length (cumsum_from a xs) = length xs"
  by (induction xs arbitrary: a) simp_all

lemma cumsum_from_last: "xs \<noteq> [] \<Longrightarrow> last (cumsum_from a xs) = a + sum_list xs"
proof (induction xs arbitrary: a)
  case Nil
  then show ?case by simp
next
  case (Cons x xs)
  show ?case
  proof (cases "xs = []")
    case True
    then show ?thesis by simp
  next
    case False
    have ne: "cumsum_from (a + x) xs \<noteq> []"
      using False cumsum_from_length [of "a + x" xs] by (metis length_0_conv)
    show ?thesis using Cons.IH [OF False, of "a + x"] ne by (simp add: add.assoc)
  qed
qed

lemma sum_list_divide: "sum_list (map (\<lambda>v. v / s) vs) = sum_list vs / (s::real)"
  by (induction vs) (simp_all add: add_divide_distrib)

lemma sum_list_positive: "vs \<noteq> [] \<Longrightarrow> \<forall>v \<in> set vs. 0 < v \<Longrightarrow> 0 < sum_list (vs::real list)"
proof (induction vs)
  case Nil
  then show ?case by simp
next
  case (Cons v vs)
  show ?case
  proof (cases "vs = []")
    case True
    then show ?thesis using Cons.prems by simp
  next
    case False
    then have "0 < sum_list vs" using Cons by simp
    then show ?thesis using Cons.prems by simp
  qed
qed

lemma random_choice_ok:
  assumes ne: "idxs \<noteq> []" and len: "length q = length idxs"
      and pos: "\<forall>v \<in> set q. 0 \<le> v" and one: "sum_list q = 1" and g: "wf_rng g"
  shows "\<exists>j < length idxs. random_choice (Vec idxs) (Vec q) g = Inr (idxs ! j, snd (draw g))"
proof -
  let ?cdf = "cumsum q"
  let ?cdf' = "map (\<lambda>c. c / last ?cdf) ?cdf"
  let ?u = "fst (draw g)"
  have qne: "q \<noteq> []" using ne len by (metis length_0_conv)
  have last1: "last ?cdf = 1" using cumsum_from_last [OF qne, of 0] one by (simp add: cumsum_def)
  have cl: "length ?cdf = length q" by (simp add: cumsum_def cumsum_from_length)
  have cne: "?cdf \<noteq> []" using cl qne by (metis length_0_conv)
  have cdf': "?cdf' = ?cdf" unfolding last1 by simp
  have u: "?u < 1" using g by (simp add: draw_def wf_rng_def)
  have "last ?cdf \<in> set ?cdf" using cne by simp
  moreover have "\<not> last ?cdf \<le> ?u" using last1 u by simp
  ultimately have "length (filter (\<lambda>c. c \<le> ?u) ?cdf) < length ?cdf"
    by (rule length_filter_less)
  then have j: "searchsorted_right ?cdf' ?u < length idxs"
    unfolding cdf' searchsorted_right_def cl len .
  have nneg: "\<not> list_ex (\<lambda>v. v < 0) q" using pos by (auto simp: list_ex_iff)
  have tol: "\<not> \<bar>sum_list q - 1\<bar> > atol" unfolding one by (simp add: atol_def)
  have "random_choice (Vec idxs) (Vec q) g
        = Inr (idxs ! searchsorted_right ?cdf' ?u, snd (draw g))"
    unfolding random_choice_def population_def
    using ne len nneg tol j by (simp add: Let_def case_prod_beta)
  then show ?thesis using j by blast
qed

lemma random_choice_scalar_p:
  "\<exists>e. random_choice a (Scalar v) g = Inl e"
  unfolding random_choice_def by (cases "population a") simp_all

lemma topk_row_length: "length (topk_row r k) = min k (length r)"
  by (simp add: topk_row_def min.commute)

lemma topk_row_set: "set (topk_row r k) \<subseteq> set (zip r [0..<length r])"
  unfolding topk_row_def using set_take_subset [of k] by fastforce

lemma topk_row_snd: "i \<in> set (map snd (topk_row r k)) \<Longrightarrow> i < length r"
  using topk_row_set [of r k] by (auto simp: set_zip)

lemma topk_row_fst: "v \<in> set (map fst (topk_row r k)) \<Longrightarrow> v \<in> set r"
  using topk_row_set [of r k] by (auto dest: set_zip_leftD)


lemma squeeze_row_vec:
  assumes "rows A = [r]" and "length r \<noteq> 1"
  shows "squeeze A = Vec r"
  using assms by (cases r; cases "tl r") (auto simp: squeeze_def)

lemma squeeze_row_scalar:
  assumes "rows A = [r]" and "length r = 1"
  shows "\<exists>v. squeeze A = Scalar v"
  using assms by (cases r; cases "tl r") (auto simp: squeeze_def)

lemma candidates_ok:
  assumes rows: "rows p = [r]" and len: "length r = length (chars net)"
      and sh: "shape1 p = length (chars net)"
      and pos: "\<forall>v \<in> set r. 0 < v" and ok: "top_k_supported net top_k"
  shows "\<exists>p' vs idxs. candidates net p top_k = Inr (p', Vec idxs) \<and> squeeze p' = Vec vs
           \<and> idxs \<noteq> [] \<and> length vs = length idxs \<and> (\<forall>v \<in> set vs. 0 < v)
           \<and> (\<forall>i \<in> set idxs. i < length (chars net))"
proof (cases top_k)
  case None
  then have V: "2 \<le> length (chars net)" using ok by (simp add: top_k_supported_def)
  have "squeeze p = Vec r" using rows len V by (intro squeeze_row_vec) simp_all
  moreover have "candidates net p top_k = Inr (p, Vec [0..<length (chars net)])"
    using None by (simp add: candidates_def arange_def)
  moreover have "[0..<length (chars net)] \<noteq> []" using V by auto
  ultimately show ?thesis using len pos by (intro exI [of _ p] exI [of _ r]
        exI [of _ "[0..<length (chars net)]"]) simp
next
  case (Some k)
  then have k: "2 \<le> k" "k \<le> length (chars net)" using ok by (simp_all add: top_k_supported_def)
  let ?T = "topk_row r k"
  let ?p' = "\<lparr>shape0 = shape0 p, shape1 = k, rows = [map fst ?T]\<rparr>"
  let ?ti = "\<lparr>shape0 = shape0 p, shape1 = k, rows = [map snd ?T]\<rparr>"
  have lT: "length ?T = k" using k len by (simp add: topk_row_length)
  have tk: "topk p k = Inr (?p', ?ti)" using k sh rows by (simp add: topk_def)
  have s1: "squeeze ?ti = Vec (map snd ?T)" using lT k by (intro squeeze_row_vec) simp_all
  have s2: "squeeze ?p' = Vec (map fst ?T)" using lT k by (intro squeeze_row_vec) simp_all
  have c: "candidates net p top_k = Inr (?p', Vec (map snd ?T))"
    using Some tk s1 by (simp add: candidates_def)
  have ne: "map snd ?T \<noteq> []" using lT k by (metis length_0_conv length_map not_numeral_le_zero)
  have vpos: "\<forall>v \<in> set (map fst ?T). 0 < v" using topk_row_fst [of _ r k] pos by blast
  have ilt: "\<forall>i \<in> set (map snd ?T). i < length (chars net)"
    using topk_row_snd [of _ r k] len by auto
  show ?thesis
    using c s2 ne vpos ilt
    by (intro exI [of _ ?p'] exI [of _ "map fst ?T"] exI [of _ "map snd ?T"]) simp
qed

lemma predict_ok:
  assumes wf: "wf_net net" and g: "wf_rng g" and ch: "ch \<in> set (chars net)"
      and ok: "top_k_supported net top_k"
  shows "\<exists>c h'. predict net ch h top_k g = Inr (c, h', snd (draw g)) \<and> c \<in> set (chars net)"
proof -
  let ?V = "length (chars net)"
  let ?h0 = "case h of None \<Rightarrow> init_hidden net 1 | Some h' \<Rightarrow> h'"
  have d: "distinct (chars net)" using wf by (simp add: wf_net_def)
  from char2int_get_ok [OF d ch] obtain ix where
    ix: "ix < ?V" "dict_get (char2int net) ch = Inr ix" by blast
  let ?a = "\<lparr>shape0 = 1, shape1 = 1, rows = [[int ix]]\<rparr>"
  have "wf2 ?a" by (simp add: wf2_def)
  moreover have "\<forall>r \<in> set (rows ?a). \<forall>v \<in> set r. 0 \<le> v \<and> v < int ?V" using ix by simp
  ultimately obtain x where x: "one_hot_encode ?a ?V = Inr x"
    using one_hot_encode_eq by blast
  obtain p h1 where sf: "softmax_forward net x ?h0 = (p, h1)"
    by (cases "softmax_forward net x ?h0")
  have pf: "fst (softmax_forward net x ?h0) = p" using sf by simp
  have wfp: "length (rows p) = 1" "shape1 p = ?V" "length (hd (rows p)) = ?V"
            "\<forall>v \<in> set (hd (rows p)). 0 < v"
    using wf pf unfolding wf_net_def by metis+
  have rows: "rows p = [hd (rows p)]" using wfp(1) by (cases "rows p") simp_all
  from candidates_ok [OF rows wfp(3) wfp(2) wfp(4) ok] obtain p' vs idxs where
        c: "candidates net p top_k = Inr (p', Vec idxs)" and sq: "squeeze p' = Vec vs"
    and ne: "idxs \<noteq> []" and len: "length vs = length idxs" and pos: "\<forall>v \<in> set vs. 0 < v"
    and ilt: "\<forall>i \<in> set idxs. i < ?V"
    by blast
  have vne: "vs \<noteq> []" using ne len by (metis length_0_conv)
  have spos: "0 < sum_list vs" by (rule sum_list_positive [OF vne pos])
  let ?q = "map (\<lambda>v. v / sum_list vs) vs"
  have dv: "divide_by (squeeze p') (sum_all (squeeze p')) = Vec ?q"
    unfolding sq by (simp add: divide_by_def sum_all_def)
  have qpos: "\<forall>v \<in> set ?q. 0 \<le> v" using pos spos by (auto intro: divide_nonneg_pos less_imp_le)
  have qone: "sum_list ?q = 1" unfolding sum_list_divide using spos by simp
  from random_choice_ok [OF ne _ qpos qone g] len obtain j where
    j: "j < length idxs" "random_choice (Vec idxs) (Vec ?q) g = Inr (idxs ! j, snd (draw g))"
    by auto
  have "idxs ! j < ?V" using j(1) ilt by simp
  then have ic: "dict_get (int2char net) (idxs ! j) = Inr (chars net ! (idxs ! j))"
    and inn: "chars net ! (idxs ! j) \<in> set (chars net)"
    by (simp_all add: int2char_get_ok)
  have "predict net ch h top_k g = Inr (chars net ! (idxs ! j), h1, snd (draw g))"
    unfolding predict_def Let_def ix(2) using x sf c dv j(2) ic by simp
  then show ?thesis using inn by blast
qed

lemma draw_wf: "wf_rng g \<Longrightarrow> wf_rng (snd (draw g))"
  by (simp add: wf_rng_def draw_def)


lemma prime_loop_ok:
  assumes wf: "wf_net net" and ok: "top_k_supported net top_k"
  shows "wf_rng g \<Longrightarrow> set prime \<subseteq> set (chars net) \<Longrightarrow>
         \<exists>r h' g'. prime_loop net top_k co h g prime = Inr (r, h', g') \<and> wf_rng g'
                  \<and> (prime \<noteq> [] \<longrightarrow> (\<exists>c. r = Some c))"
proof (induction prime arbitrary: co h g)
  case Nil
  then show ?case by simp
next
  case (Cons ch rest)
  have ch: "ch \<in> set (chars net)" and rest: "set rest \<subseteq> set (chars net)"
    using Cons.prems(2) by simp_all
  from predict_ok [OF wf Cons.prems(1) ch ok, of "Some h"] obtain c h1 where
    p: "predict net ch (Some h) top_k g = Inr (c, h1, snd (draw g))" by blast
  from Cons.IH [OF draw_wf [OF Cons.prems(1)] rest, of "Some c" h1] obtain r h' g' where
    r: "prime_loop net top_k (Some c) h1 (snd (draw g)) rest = Inr (r, h', g')" "wf_rng g'"
       "rest \<noteq> [] \<longrightarrow> (\<exists>c. r = Some c)"
    by blast
  have "\<exists>c'. r = Some c'"
  proof (cases "rest = []")
    case True
    then show ?thesis using r(1) by auto
  next
    case False
    then show ?thesis using r(3) by simp
  qed
  then show ?case using p r by simp
qed

lemma gen_loop_ok:
  assumes wf: "wf_net net" and ok: "top_k_supported net top_k"
  shows "wf_rng g \<Longrightarrow> cs \<noteq> [] \<Longrightarrow> last cs \<in> set (chars net) \<Longrightarrow>
         \<exists>s. gen_loop net top_k n cs h g = Inr s"
proof (induction n arbitrary: cs h g)
  case 0
  then show ?case by simp
next
  case (Suc n)
  have lg: "list_get cs (length cs - 1) = Inr (last cs)"
    using Suc.prems(2) by (simp add: list_get_def last_conv_nth)
  from predict_ok [OF wf Suc.prems(1) Suc.prems(3) ok, of "Some h"] obtain c h1 where
    p: "predict net (last cs) (Some h) top_k g = Inr (c, h1, snd (draw g))"
    and c: "c \<in> set (chars net)" by blast
  from Suc.IH [OF draw_wf [OF Suc.prems(1)], of "cs @ [c]" h1] c obtain s where
    "gen_loop net top_k n (cs @ [c]) h1 (snd (draw g)) = Inr s" by auto
  then show ?case using lg p by simp
qed

lemma sample_ok:
  assumes wf: "wf_net net" and g: "wf_rng g" and ne: "prime \<noteq> []"
      and pr: "set prime \<subseteq> set (chars net)" and ok: "top_k_supported net top_k"
  shows "\<exists>s. sample net sz prime top_k g = Inr s"
proof -
  from prime_loop_ok [OF wf ok g pr, of None "init_hidden net 1"] ne obtain c h' g' where
    a: "prime_loop net top_k None (init_hidden net 1) g prime = Inr (Some c, h', g')"
    and g': "wf_rng g'" by blast
  have c: "c \<in> set (chars net)" using prime_loop_result [OF a] ne by auto
  from gen_loop_ok [OF wf ok g', of "prime @ [c]" "nat sz" h'] c obtain s where
    "gen_loop net top_k (nat sz) (prime @ [c]) h' g' = Inr s" by auto
  then show ?thesis using a by (simp add: sample_def)
qed

lemma candidates_one_scalar:
  assumes rows: "rows p = [r]" and len: "length r = shape1 p"
      and c: "candidates net p (Some 1) = Inr (p', tc)"
  shows "\<exists>v. squeeze p' = Scalar v"
proof -
  have k: "1 \<le> shape1 p" and p': "p' = \<lparr>shape0 = shape0 p, shape1 = 1, rows = [map fst (topk_row r 1)]\<rparr>"
    using c rows by (auto simp: candidates_def topk_def split: if_splits)
  have "length (topk_row r 1) = 1" unfolding topk_row_length using k len by simp
  then have l: "length (map fst (topk_row r 1)) = 1" by (simp only: length_map)
  have "rows p' = [map fst (topk_row r 1)]" unfolding p' by simp
  then show ?thesis using l by (rule squeeze_row_scalar)
qed

lemma predict_scalar_raises:
  assumes "\<And>x h0 p h1 p' tc. softmax_forward net x h0 = (p, h1) \<Longrightarrow>
              candidates net p top_k = Inr (p', tc) \<Longrightarrow> \<exists>v. squeeze p' = Scalar v"
  shows "\<exists>e. predict net ch h top_k g = Inl e"
proof -
  let ?h0 = "case h of None \<Rightarrow> init_hidden net 1 | Some h' \<Rightarrow> h'"
  show ?thesis
  proof (cases "dict_get (char2int net) ch")
    case (Inl e)
    then show ?thesis by (simp add: predict_def)
  next
    case (Inr ix)
    show ?thesis
    proof (cases "one_hot_encode \<lparr>shape0 = 1, shape1 = 1, rows = [[int ix]]\<rparr> (length (chars net))")
      case (Inl e)
      then show ?thesis using Inr by (simp add: predict_def)
    next
      case x: (Inr x)
      obtain p h1 where sf: "softmax_forward net x ?h0 = (p, h1)"
        by (cases "softmax_forward net x ?h0")
      show ?thesis
      proof (cases "candidates net p top_k")
        case (Inl e)
        then show ?thesis using Inr x sf by (simp add: predict_def)
      next
        case c: (Inr pc)
        obtain p' tc where pc: "pc = (p', tc)" by (cases pc)
        from assms [OF sf c [unfolded pc]] obtain v where v: "squeeze p' = Scalar v" by blast
        obtain e where "random_choice tc (divide_by (Scalar v) (sum_all (Scalar v))) g = Inl e"
          using random_choice_scalar_p [of tc _ g] by (auto simp: divide_by_def)
        then show ?thesis using Inr x sf c pc v by (simp add: predict_def)
      qed
    qed
  qed
qed



lemmas sampler_defs =
  example_net_def example_rng_def sample_def predict_def dict_get_def char2int_def
  char2int_of_def int2char_def int2char_of_def dict_of_def dict_set_def py_enumerate_def
  one_hot_encode_def zeros2_def fancy_assign_def arange_def flatten_def reshape3_def
  candidates_def topk_def topk_row_def squeeze_def sum_all_def divide_by_def
  random_choice_def population_def atol_def cumsum_def draw_def searchsorted_right_def
  Let_def list_get_def

lemma example_net_wf: "wf_net example_net"
  by (simp add: wf_net_def example_net_def)

lemma example_rng_wf: "wf_rng example_rng"
  by (simp add: wf_rng_def example_rng_def)

lemma example_run_top2: "sample example_net 2 ''a'' (Some 2) example_rng = Inr ''accc''"
  by (simp add: sampler_defs numeral_2_eq_2)

lemma example_run_all: "sample example_net 1 ''ab'' None example_rng = Inr ''abcc''"
  by (simp add: sampler_defs)

lemma example_predict_one:
  "predict example_net CHR ''a'' None (Some 1) example_rng = Inl TypeError"
  by (simp add: sampler_defs)

text \<open>
  Claim C3 states that \<open>predict\<close> with \<open>top_k = K\<close>, for every \<open>K\<close> from \<open>1\<close> to the number of
  tokens, returns a character drawn from the \<open>K\<close> most probable symbols, and from all
  symbols when \<open>top_k\<close> is \<open>None\<close>. At \<open>K = 1\<close> the code does not return: \<^verbatim>\<open>squeeze()\<close>
  turns the one candidate and its probability into zero-dimensional arrays, and
  \<^verbatim>\<open>np.random.choice\<close> raises on them. For every well-formed network, every character,
  hidden state and generator, \<open>predict\<close> with \<open>top_k = 1\<close> ends in an exception; so does
  \<open>predict\<close> with \<open>top_k = None\<close> when the vocabulary has a single token.
\<close>

theorem predict_top_k_one_raises:
  assumes "wf_net net"
  shows "(\<exists>e. predict net ch h (Some 1) g = Inl e)
       \<and> (length (chars net) = 1 \<longrightarrow> (\<exists>e. predict net ch h None g = Inl e))"
proof
  have one_row: "rows p = [hd (rows p)] \<and> length (hd (rows p)) = shape1 p
                 \<and> length (hd (rows p)) = length (chars net)"
    if "softmax_forward net x h0 = (p, h1)" for x h0 p h1
  proof -
    have pf: "fst (softmax_forward net x h0) = p" using that by simp
    have "length (rows p) = 1" "shape1 p = length (chars net)"
         "length (hd (rows p)) = length (chars net)"
      using assms pf unfolding wf_net_def by metis+
    then show ?thesis by (cases "rows p") simp_all
  qed
  show "\<exists>e. predict net ch h (Some 1) g = Inl e"
  proof (rule predict_scalar_raises)
    fix x h0 p h1 p' tc
    assume sf: "softmax_forward net x h0 = (p, h1)"
       and c: "candidates net p (Some 1) = Inr (p', tc)"
    from one_row [OF sf] have "rows p = [hd (rows p)]" "length (hd (rows p)) = shape1 p"
      by simp_all
    then show "\<exists>v. squeeze p' = Scalar v" using c by (rule candidates_one_scalar)
  qed
  show "length (chars net) = 1 \<longrightarrow> (\<exists>e. predict net ch h None g = Inl e)"
  proof
    assume V: "length (chars net) = 1"
    show "\<exists>e. predict net ch h None g = Inl e"
    proof (rule predict_scalar_raises)
      fix x h0 p h1 p' tc
      assume sf: "softmax_forward net x h0 = (p, h1)"
         and c: "candidates net p None = Inr (p', tc)"
      have p': "p' = p" using c by (simp add: candidates_def)
      from one_row [OF sf] V have "rows p = [hd (rows p)]" "length (hd (rows p)) = 1"
        by simp_all
      then show "\<exists>v. squeeze p' = Scalar v" unfolding p' by (rule squeeze_row_scalar)
    qed
  qed
qed

theorem predict_top_k_one_raises_witness:
  "wf_net example_net
   \<and> predict example_net CHR ''a'' None (Some 1) example_rng = Inl TypeError"
proof -
  from predict_top_k_one_raises [OF example_net_wf, of "CHR ''a''" None example_rng]
  obtain e where "predict example_net CHR ''a'' None (Some 1) example_rng = Inl e" by blast
  moreover have "e = TypeError" using calculation example_predict_one by simp
  ultimately show ?thesis using example_net_wf by simp
qed

text \<open>
  Claim C6. For a priming string over the network's vocabulary, every character of a
  string returned by \<open>sample\<close> is a token of the network. \<open>sample\<close> does return such a
  string for a well-formed network and generator, a non-empty priming string and a
  supported \<open>top_k\<close>.
\<close>

theorem sample_in_vocabulary:
  assumes "set prime \<subseteq> set (chars net)"
  shows "(sample net sz prime top_k g = Inr s \<longrightarrow> set s \<subseteq> set (chars net))
       \<and> (wf_net net \<and> wf_rng g \<and> prime \<noteq> [] \<and> top_k_supported net top_k \<longrightarrow>
            (\<exists>s'. sample net sz prime top_k g = Inr s' \<and> set s' \<subseteq> set (chars net)))"
proof -
  have part: "set s' \<subseteq> set (chars net)" if "sample net sz prime top_k g = Inr s'" for s'
  proof -
    from sample_result [OF that] obtain gen where
      "s' = prime @ gen" "set gen \<subseteq> set (chars net)" by blast
    then show ?thesis using assms by simp
  qed
  have "\<exists>s'. sample net sz prime top_k g = Inr s' \<and> set s' \<subseteq> set (chars net)"
    if "wf_net net" "wf_rng g" "prime \<noteq> []" "top_k_supported net top_k"
    using sample_ok [OF that(1,2,3) assms that(4), of sz] part by blast
  then show ?thesis using part by blast
qed

theorem sample_in_vocabulary_witness:
  "set ''a'' \<subseteq> set (chars example_net)
   \<and> sample example_net 2 ''a'' (Some 2) example_rng = Inr ''accc''
   \<and> set ''accc'' \<subseteq> set (chars example_net)"
proof -
  have p: "set ''a'' \<subseteq> set (chars example_net)" by (simp add: example_net_def)
  from sample_in_vocabulary [OF p, of 2 "Some 2" example_rng "''accc''"] example_run_top2
  have "set ''accc'' \<subseteq> set (chars example_net)" by blast
  then show ?thesis using p example_run_top2 by blast
qed

text \<open>
  Claim C7, as amended. A string returned by \<open>sample\<close> is the priming string, which is
  not empty, followed by exactly \<open>size + 1\<close> generated symbols (\<open>1\<close> for a negative
  \<open>size\<close>): the symbol predicted from the priming string is appended before the loop
  appends \<open>size\<close> more. Its length is \<open>len(prime) + size + 1\<close>. \<open>sample\<close> returns such a
  string for a well-formed network and generator, a non-empty priming string over the
  vocabulary and a supported \<open>top_k\<close>.
\<close>

theorem sample_length:
  "(sample net sz prime top_k g = Inr s \<longrightarrow>
       prime \<noteq> [] \<and> take (length prime) s = prime \<and> length s = length prime + nat sz + 1)
   \<and> (wf_net net \<and> wf_rng g \<and> prime \<noteq> [] \<and> set prime \<subseteq> set (chars net)
         \<and> top_k_supported net top_k \<longrightarrow>
        (\<exists>s'. sample net sz prime top_k g = Inr s'
              \<and> length s' = length prime + nat sz + 1))"
proof -
  have part: "prime \<noteq> [] \<and> take (length prime) s' = prime
              \<and> length s' = length prime + nat sz + 1"
    if "sample net sz prime top_k g = Inr s'" for s'
  proof -
    from sample_result [OF that] obtain gen where
      "prime \<noteq> []" "s' = prime @ gen" "length gen = nat sz + 1" by blast
    then show ?thesis by simp
  qed
  have "\<exists>s'. sample net sz prime top_k g = Inr s' \<and> length s' = length prime + nat sz + 1"
    if "wf_net net" "wf_rng g" "prime \<noteq> []" "set prime \<subseteq> set (chars net)"
       "top_k_supported net top_k"
    using sample_ok [OF that, of sz] part by blast
  then show ?thesis using part by blast
qed

theorem sample_length_witness:
  "sample example_net 1 ''ab'' None example_rng = Inr ''abcc''
   \<and> length ''abcc'' = length ''ab'' + nat 1 + 1
   \<and> take (length ''ab'') ''abcc'' = ''ab''"
proof -
  from sample_length [of example_net 1 "''ab''" None example_rng "''abcc''"] example_run_all
  have "take (length ''ab'') ''abcc'' = ''ab'' \<and> length ''abcc'' = length ''ab'' + nat 1 + 1"
    by blast
  then show ?thesis using example_run_all by blast
qed

text \<open>
  Claim C7 as stated, length \<open>len(prime) + size\<close>, fails on the example network: priming
  string \<open>a\<close>, \<open>size = 2\<close>, \<open>top_k = 2\<close> returns four symbols.
\<close>

theorem sample_length_counterexample:
  "set ''a'' \<subseteq> set (chars example_net)
   \<and> sample example_net 2 ''a'' (Some 2) example_rng = Inr ''accc''
   \<and> length ''accc'' \<noteq> length ''a'' + nat 2"
  using example_run_top2 by (simp add: example_net_def)


section \<open>Properties of the temperature sampler\<close>

lemma multinomial_pvals_nonpositive:
  assumes "\<forall>p \<in> set preds. 0 < p \<and> p \<le> 1" and "0 < t"
  shows "\<forall>v \<in> set (multinomial_pvals preds t). v \<le> 0"
  using assms by (auto simp: multinomial_pvals_def divide_le_0_iff)

text \<open>
  Claim C8 states that the helper draws from the distribution proportional to
  \<open>preds powr (1 / temperature)\<close>. The code hands \<^verbatim>\<open>np.random.multinomial\<close> the
  log-probabilities divided by the temperature, not the renormalized exponentials: for
  \<open>preds = (1/2, 1/2)\<close> and temperature \<open>1\<close> the vector passed is \<open>(ln (1/2), ln (1/2))\<close>, both
  entries negative, where the claimed distribution is \<open>(1/2, 1/2)\<close>.
\<close>

theorem temperature_sample_passes_log_preds:
  "multinomial_pvals [1 / 2, 1 / 2] 1 = [ln (1 / 2), ln (1 / 2)]
   \<and> list_all (\<lambda>v. v < 0) (multinomial_pvals [1 / 2, 1 / 2] 1)
   \<and> claimed_distribution [1 / 2, 1 / 2] 1 = [1 / 2, 1 / 2]
   \<and> multinomial_pvals [1 / 2, 1 / 2] 1 \<noteq> claimed_distribution [1 / 2, 1 / 2] 1"
proof -
  have neg: "ln (1 / 2 :: real) < 0" by simp
  have a: "multinomial_pvals [1 / 2, 1 / 2] 1 = [ln (1 / 2), ln (1 / 2)]"
    by (simp add: multinomial_pvals_def)
  have e: "exp (ln (1 / 2 :: real)) = 1 / 2" by (rule exp_ln) simp
  have c: "claimed_distribution [1 / 2, 1 / 2] 1 = [1 / 2, 1 / 2]"
    unfolding claimed_distribution_def Let_def by (simp add: e del: ln_divide_pos)
  have ne: "ln (1 / 2 :: real) \<noteq> 1 / 2" using neg by linarith
  have d: "multinomial_pvals [1 / 2, 1 / 2] 1 \<noteq> claimed_distribution [1 / 2, 1 / 2] 1"
    unfolding a c using ne by (metis list.inject)
  have l: "list_all (\<lambda>v. v < 0) (multinomial_pvals [1 / 2, 1 / 2] 1)"
    unfolding a using neg by simp
  show ?thesis using a l c d by (intro conjI)
qed


end
